theory Spec2Isabelle
  imports Main "HOL-Library.Sublist"
begin

section \<open>Python strings\<close>

text \<open>
  A Python \<open>str\<close> is modelled as a \<open>string\<close> whose characters are the code points
  below 256. \<open>x in s\<close> on two strings is \<^const>\<open>sublist\<close>, \<open>s.startswith(x)\<close> is
  \<^const>\<open>prefix\<close>.
\<close>

definition dq :: char where
  "dq = CHR 0x22"

definition sq :: char where
  "sq = CHR 0x27"

definition nl :: char where
  "nl = CHR 0x0A"

text \<open>The characters \<open>str.strip()\<close> removes: those for which \<open>str.isspace\<close> holds.\<close>

definition whitespace :: "char list" where
  "whitespace = [CHR 0x09, CHR 0x0A, CHR 0x0B, CHR 0x0C, CHR 0x0D,
                 CHR 0x1C, CHR 0x1D, CHR 0x1E, CHR 0x1F, CHR 0x20, CHR 0x85, CHR 0xA0]"

definition isspace :: "char \<Rightarrow> bool" where
  "isspace c = (c \<in> set whitespace)"

definition strip :: "string \<Rightarrow> string" where
  "strip s = rev (dropWhile isspace (rev (dropWhile isspace s)))"

text \<open>
  \<open>s.split(sep)\<close> for a separator: the pieces between the leftmost non-overlapping
  occurrences of \<open>sep\<close>. Python raises \<open>ValueError\<close> on an empty separator; both call
  sites pass a non-empty literal, and the guard \<open>sep \<noteq> []\<close> keeps the model total.
\<close>

function split_from :: "string \<Rightarrow> string \<Rightarrow> string \<Rightarrow> string list" where
  "split_from sep acc [] = [acc]"
| "split_from sep acc (c # cs) =
     (if sep \<noteq> [] \<and> prefix sep (c # cs)
      then acc # split_from sep [] (drop (length sep) (c # cs))
      else split_from sep (acc @ [c]) cs)"
  by pat_completeness auto
termination
  by (relation "measure (\<lambda>(sep, acc, s). length s)") auto

definition split :: "string \<Rightarrow> string \<Rightarrow> string list" where
  "split s sep = split_from sep [] s"

fun join :: "string \<Rightarrow> string list \<Rightarrow> string" where
  "join sep [] = []"
| "join sep [x] = x"
| "join sep (x # y # ys) = x @ sep @ join sep (y # ys)"

section \<open>Python values\<close>

text \<open>
  An exception that \<open>except Exception\<close> catches: an \<open>AttributeError\<close> or any other
  instance of \<open>Exception\<close>, each given by the text \<open>str(e)\<close> yields. Signals outside
  \<open>Exception\<close> (an interrupt, the cancellation of the task) are not modelled.
\<close>

datatype exn = AttributeError string | Exception string

fun describe :: "exn \<Rightarrow> string" where
  "describe (AttributeError s) = s"
| "describe (Exception s) = s"

text \<open>Reading an attribute an object lists either returns a value or raises.\<close>

datatype 'a access = Returns 'a | Raises exn

text \<open>
  The values a message or an argument can be: a \<open>str\<close>, a \<open>list\<close> (with the text
  \<open>str()\<close> gives for it), or any other object, given by its attributes, its truth value
  and the text \<open>str()\<close> gives for it. An attribute the object does not list is one it
  does not have. Messages are nested no deeper than the interpreter's recursion limit
  allows.
\<close>

datatype pyval =
    PyStr string
  | PyList "pyval list" string
  | PyObj "(string \<times> pyval access) list" bool string

fun truthy :: "pyval \<Rightarrow> bool" where
  "truthy (PyStr s) = (s \<noteq> [])"
| "truthy (PyList xs r) = (xs \<noteq> [])"
| "truthy (PyObj attrs t r) = t"

fun str :: "pyval \<Rightarrow> string" where
  "str (PyStr s) = s"
| "str (PyList xs r) = r"
| "str (PyObj attrs t r) = r"

fun isinstance_str :: "pyval \<Rightarrow> bool" where
  "isinstance_str (PyStr s) = True"
| "isinstance_str v = False"

section \<open>ContentClassifier\<close>

definition function_indicators :: "string list" where
  "function_indicators =
    [''[FunctionCall('',
     ''[FunctionExecutionResult('',
     ''call_id='',
     ''arguments='',
     ''name='' @ [sq] @ ''arxive_search'' @ [sq],
     ''name='' @ [dq] @ ''arxive_search'' @ [dq],
     [dq] @ ''query'' @ [dq] @ '':'',
     [dq] @ ''max_result'' @ [dq] @ '':'',
     ''pdf_url'',
     ''published'',
     ''authors'']"

definition json_indicators :: "string list" where
  "json_indicators =
    [[sq] @ ''title'' @ [sq] @ '':'',
     [sq] @ ''authors'' @ [sq] @ '':'',
     [sq] @ ''published'' @ [sq] @ '':'',
     [sq] @ ''summary'' @ [sq] @ '':'',
     [sq] @ ''pdf_url'' @ [sq] @ '':'',
     ''{'' @ [sq] @ ''title'' @ [sq] @ '':'',
     ''{'' @ [dq] @ ''title'' @ [dq] @ '':'']"

definition is_function_call_message :: "pyval \<Rightarrow> bool" where
  "is_function_call_message content =
     (if \<not> truthy content \<or> \<not> isinstance_str content then False
      else list_ex (\<lambda>indicator. sublist indicator (str content)) function_indicators)"

definition is_raw_json_data :: "pyval \<Rightarrow> bool" where
  "is_raw_json_data content =
     (if \<not> truthy content \<or> \<not> isinstance_str content then False
      else list_ex (\<lambda>indicator. sublist indicator (str content)) json_indicators)"

section \<open>ContentAggregator\<close>

text \<open>
  The loop of \<open>extract_final_review_only\<close> over the lines, with its two variables
  \<open>review_started\<close> and \<open>review_lines\<close>.
\<close>

fun review_loop :: "bool \<Rightarrow> string list \<Rightarrow> string list \<Rightarrow> string list" where
  "review_loop review_started review_lines [] = review_lines"
| "review_loop review_started review_lines (l # ls) =
     (let line = strip l in
      if \<not> review_started \<and> line = [] then review_loop review_started review_lines ls
      else if \<not> review_started \<and>
              (sublist ''Literature Review:'' line \<or>
               sublist ''Key Papers'' line \<or>
               (line \<noteq> [] \<and> \<not> is_function_call_message (PyStr line) \<and>
                \<not> is_raw_json_data (PyStr line)))
      then review_loop True (review_lines @ [line]) ls
      else if review_started then review_loop review_started (review_lines @ [line]) ls
      else review_loop review_started review_lines ls)"

definition extract_final_review_only :: "string \<Rightarrow> string" where
  "extract_final_review_only content =
     (if content = [] then []
      else strip (join [nl] (review_loop False [] (split content [nl]))))"

text \<open>
  The loop of \<open>clean_content\<close> over the sections, with its two variables
  \<open>clean_sections\<close> and \<open>seen_content\<close>.
\<close>

fun section_loop :: "string list \<Rightarrow> string set \<Rightarrow> string list \<Rightarrow> string list" where
  "section_loop clean_sections seen_content [] = clean_sections"
| "section_loop clean_sections seen_content (s # ss) =
     (let section = strip s in
      if section = [] then section_loop clean_sections seen_content ss
      else if is_function_call_message (PyStr section) \<or> is_raw_json_data (PyStr section)
      then section_loop clean_sections seen_content ss
      else if section \<in> seen_content then section_loop clean_sections seen_content ss
      else section_loop (clean_sections @ [section]) (insert section seen_content) ss)"

definition clean_content :: "string \<Rightarrow> string" where
  "clean_content content =
     (if content = [] then []
      else let sections = split content [nl, nl];
               clean_sections = section_loop [] {} sections;
               cleaned_content = join [nl, nl] clean_sections;
               final_review = extract_final_review_only cleaned_content
           in if final_review \<noteq> [] then final_review else cleaned_content)"

section \<open>MessageNormalizer\<close>

text \<open>
  \<open>hasattr(msg, a) and msg.a\<close>. \<open>hasattr\<close> is false when the object does not have the
  attribute and when reading it raises \<open>AttributeError\<close>; any other exception raised by
  the read leaves \<open>hasattr\<close>. So the attribute is missing or false, or reading it raises
  past \<open>hasattr\<close>, or it is there and true. Only objects carry attributes; a \<open>str\<close> and
  a \<open>list\<close> have none of the six names the normalizer asks for.
\<close>

datatype probe = Raising | Falsy | Truthy pyval

fun attrs_of :: "pyval \<Rightarrow> (string \<times> pyval access) list" where
  "attrs_of (PyObj attrs t r) = attrs"
| "attrs_of v = []"

definition probe :: "pyval \<Rightarrow> string \<Rightarrow> probe" where
  "probe msg a =
     (case map_of (attrs_of msg) a of
        None \<Rightarrow> Falsy
      | Some (Raises (AttributeError s)) \<Rightarrow> Falsy
      | Some (Raises (Exception s)) \<Rightarrow> Raising
      | Some (Returns v) \<Rightarrow> if truthy v then Truthy v else Falsy)"

text \<open>\<open>v[-1] if isinstance(v, list) else v\<close>, for a value \<open>v\<close> that is true.\<close>

fun last_msg :: "pyval \<Rightarrow> pyval" where
  "last_msg (PyList xs r) = last xs"
| "last_msg v = v"

lemma size_map_of_attr:
  "map_of attrs a = Some (Returns v) \<Longrightarrow>
   size v < size_list (size_prod (\<lambda>_. 0) (size_access size)) attrs"
  by (induction attrs) (auto split: if_splits)

lemma size_last_msg: "truthy v \<Longrightarrow> size (last_msg v) \<le> size v"
proof (cases v)
  case (PyList xs r)
  assume "truthy v"
  with PyList have "last xs \<in> set xs" by simp
  then have "size (last xs) \<le> size_list size xs" by (simp add: size_list_estimation')
  with PyList show ?thesis by simp
qed simp_all

lemma size_probe: "probe msg a = Truthy v \<Longrightarrow> size (last_msg v) < size msg"
proof -
  assume p: "probe msg a = Truthy v"
  then have t: "truthy v" and m: "map_of (attrs_of msg) a = Some (Returns v)"
    by (auto simp: probe_def split: option.splits access.splits exn.splits if_splits)
  from m obtain attrs t' r where msg: "msg = PyObj attrs t' r"
    by (cases msg) auto
  with m have "size v < size msg" using size_map_of_attr [of attrs a v] by simp
  with size_last_msg [OF t] show ?thesis by simp
qed

text \<open>
  The whole body is inside \<open>try\<close>; \<open>except Exception\<close> returns the empty string, which is
  the \<^const>\<open>Raising\<close> branch at each step.
\<close>

function extract_message_content :: "pyval \<Rightarrow> string" where
  "extract_message_content msg =
     (case probe msg ''content'' of Raising \<Rightarrow> [] | Truthy v \<Rightarrow> str v | Falsy \<Rightarrow>
     (case probe msg ''summary'' of Raising \<Rightarrow> [] | Truthy v \<Rightarrow> str v | Falsy \<Rightarrow>
     (case probe msg ''messages'' of Raising \<Rightarrow> []
        | Truthy v \<Rightarrow> extract_message_content (last_msg v) | Falsy \<Rightarrow>
     (case probe msg ''inner_messages'' of Raising \<Rightarrow> []
        | Truthy v \<Rightarrow> extract_message_content (last_msg v) | Falsy \<Rightarrow>
     (case probe msg ''text'' of Raising \<Rightarrow> [] | Truthy v \<Rightarrow> str v | Falsy \<Rightarrow>
     (case probe msg ''message'' of Raising \<Rightarrow> [] | Truthy v \<Rightarrow> str v | Falsy \<Rightarrow>
      []))))))"
  by pat_completeness auto
termination
  by (relation "measure size") (auto simp: size_probe)

declare extract_message_content.simps [simp del]

section \<open>ProgressReporter and ReviewOrchestrator\<close>

datatype ReviewStatus = INITIALIZING | SEARCHING | SUMMARIZING | COMPLETED | ERROR

text \<open>
  \<open>progress_percent\<close> holds the integer literal the orchestrator passes; \<open>timestamp\<close>
  is what \<open>datetime.now()\<close> gave when the event was built.
\<close>

record 'd ReviewProgress =
  status :: ReviewStatus
  message :: string
  progress_percent :: int
  timestamp :: 'd

record ReviewConfig =
  topic :: string
  max_results :: int
  model_name :: string
  max_turns :: int
  api_key :: "string option"

record 't ReviewResult =
  success :: bool
  content :: string
  error_message :: string
  execution_time :: 't
  config :: "ReviewConfig option"
  papers_found :: int

text \<open>
  The collaborators. A team's \<open>run_stream(task)\<close> yields finitely many messages and
  then either stops or raises. \<open>create_literature_review_team\<close> takes the model name,
  the key and \<open>max_turns\<close>, and returns a team or raises. \<open>time_time n\<close> is the value of
  the \<open>n\<close>-th call of \<open>time.time()\<close> in the run, \<open>datetime_now n\<close> the value of
  \<open>datetime.now()\<close> when \<open>n\<close> events have been delivered.
\<close>

datatype stream_end = StopAsyncIteration | StreamRaises exn

type_synonym team = "string \<Rightarrow> pyval list \<times> stream_end"

record ('t, 'd) world =
  create_literature_review_team :: "string \<Rightarrow> string \<Rightarrow> int \<Rightarrow> exn + team"
  time_time :: "nat \<Rightarrow> 't"
  datetime_now :: "nat \<Rightarrow> 'd"

text \<open>
  A subscriber: given the events it has received so far and the new one, it returns
  (\<open>None\<close>) or raises.
\<close>

type_synonym 'd callback = "'d ReviewProgress list \<Rightarrow> 'd ReviewProgress \<Rightarrow> exn option"

text \<open>The subscriber that returns from every call.\<close>

definition quiet :: "'d callback" where
  "quiet = (\<lambda>delivered ev. None)"

text \<open>\<open>str(n)\<close> for an integer.\<close>

function str_nat :: "nat \<Rightarrow> string" where
  "str_nat n = (if n < 10 then [char_of (48 + n)]
                else str_nat (n div 10) @ [char_of (48 + n mod 10)])"
  by pat_completeness auto
termination
  by (relation "measure id") auto

declare str_nat.simps [simp del]

definition str_int :: "int \<Rightarrow> string" where
  "str_int i = (if i < 0 then ''-'' @ str_nat (nat (- i)) else str_nat (nat i))"

text \<open>The task handed to the team.\<close>

definition review_task :: "ReviewConfig \<Rightarrow> string" where
  "review_task cfg =
     ''conduct a literature review on the topic - '' @ topic cfg @
     '' and return exactly '' @ str_int (max_results cfg) @ '' papers''"

text \<open>
  \<open>update_progress\<close>: with a subscriber, the event is built and delivered; the result is
  the events delivered so far and the exception the subscriber raised, if any.
\<close>

definition update_progress ::
  "('t, 'd) world \<Rightarrow> 'd callback option \<Rightarrow> 'd ReviewProgress list \<Rightarrow>
   ReviewStatus \<Rightarrow> string \<Rightarrow> int \<Rightarrow> 'd ReviewProgress list \<times> exn option" where
  "update_progress w progress_callback delivered st msg percent =
     (case progress_callback of
        None \<Rightarrow> (delivered, None)
      | Some cb \<Rightarrow>
          (let ev = \<lparr>status = st, message = msg, progress_percent = percent,
                      timestamp = datetime_now w (length delivered)\<rparr>
           in (delivered @ [ev], cb delivered ev)))"

text \<open>The \<open>async for\<close> loop over the messages the stream yields.\<close>

fun stream_loop ::
  "('t, 'd) world \<Rightarrow> 'd callback option \<Rightarrow> pyval list \<Rightarrow> int \<Rightarrow> string list \<Rightarrow>
   'd ReviewProgress list \<Rightarrow> 'd ReviewProgress list \<times> (exn + string list)" where
  "stream_loop w cb [] message_count all_messages delivered = (delivered, Inr all_messages)"
| "stream_loop w cb (msg # rest) message_count all_messages delivered =
     (let message_count' = message_count + 1;
          text = extract_message_content msg;
          all_messages' = (if text \<noteq> [] then all_messages @ [text] else all_messages);
          (delivered', raised) =
            (if message_count' = 1
             then update_progress w cb delivered SEARCHING
                    ''Papers found, starting analysis...'' 60
             else if message_count' \<ge> 2
             then update_progress w cb delivered SUMMARIZING
                    ''Generating final review...'' 80
             else (delivered, None))
      in case raised of
           Some e \<Rightarrow> (delivered', Inl e)
         | None \<Rightarrow> stream_loop w cb rest message_count' all_messages' delivered')"

text \<open>
  The body of \<open>try\<close> in \<open>run_review\<close>: the events delivered, the number of calls of
  \<open>time.time()\<close> made so far, and the result or the exception raised.
\<close>

definition run_review_try ::
  "string \<Rightarrow> ('t::minus, 'd) world \<Rightarrow> ReviewConfig \<Rightarrow> 'd callback option \<Rightarrow>
   'd ReviewProgress list \<times> nat \<times> (exn + 't ReviewResult)" where
  "run_review_try self_api_key w cfg cb =
     (let start_time = time_time w 0 in
      case update_progress w cb [] INITIALIZING ''Initializing agents...'' 10 of
        (d1, Some e) \<Rightarrow> (d1, 1, Inl e)
      | (d1, None) \<Rightarrow>
      (case create_literature_review_team w (model_name cfg) self_api_key 2 of
        Inl e \<Rightarrow> (d1, 1, Inl e)
      | Inr team \<Rightarrow>
      (case update_progress w cb d1 SEARCHING
              (''Searching for papers on '' @ [sq] @ topic cfg @ [sq] @ ''...'') 25 of
        (d2, Some e) \<Rightarrow> (d2, 1, Inl e)
      | (d2, None) \<Rightarrow>
      (let task = review_task cfg in
       case update_progress w cb d2 SUMMARIZING
              ''Analyzing papers and generating review...'' 50 of
        (d3, Some e) \<Rightarrow> (d3, 1, Inl e)
      | (d3, None) \<Rightarrow>
      (case team task of (msgs, ending) \<Rightarrow>
      (case stream_loop w cb msgs 0 [] d3 of
        (d4, Inl e) \<Rightarrow> (d4, 1, Inl e)
      | (d4, Inr all_messages) \<Rightarrow>
      (case ending of
        StreamRaises e \<Rightarrow> (d4, 1, Inl e)
      | StopAsyncIteration \<Rightarrow>
      (let raw_content = join [nl, nl] all_messages;
           cleaned_content = clean_content raw_content;
           execution_time' = time_time w 1 - start_time in
       case update_progress w cb d4 COMPLETED
              ''Literature review completed successfully!'' 100 of
        (d5, Some e) \<Rightarrow> (d5, 2, Inl e)
      | (d5, None) \<Rightarrow>
          (d5, 2, Inr \<lparr>success = True, content = cleaned_content, error_message = [],
                       execution_time = execution_time', config = Some cfg,
                       papers_found = max_results cfg\<rparr>)))))))))"

text \<open>
  \<open>run_review\<close>: the events delivered to the subscriber, and the \<open>ReviewResult\<close>
  returned (\<open>Inr\<close>) or the exception that leaves the function (\<open>Inl\<close>).
\<close>

definition run_review ::
  "string \<Rightarrow> ('t::minus, 'd) world \<Rightarrow> ReviewConfig \<Rightarrow> 'd callback option \<Rightarrow>
   'd ReviewProgress list \<times> (exn + 't ReviewResult)" where
  "run_review self_api_key w cfg cb =
     (let start_time = time_time w 0 in
      case run_review_try self_api_key w cfg cb of
        (d, reads, Inr result) \<Rightarrow> (d, Inr result)
      | (d, reads, Inl e) \<Rightarrow>
          (let execution_time' = time_time w reads - start_time;
               error_msg = ''Error during literature review: '' @ describe e in
           case update_progress w cb d ERROR error_msg 0 of
             (d', Some e') \<Rightarrow> (d', Inl e')
           | (d', None) \<Rightarrow>
               (d', Inr \<lparr>success = False, content = [], error_message = error_msg,
                         execution_time = execution_time', config = Some cfg,
                         papers_found = 0\<rparr>)))"

section \<open>Notions the properties are stated with\<close>


text \<open>Aggregation of an ordered sequence of blocks: \<open>clean_content\<close> of their join.\<close>

definition aggregate :: "string list \<Rightarrow> string" where
  "aggregate blocks = clean_content (join [nl, nl] blocks)"

text \<open>The three events delivered before the stream is consumed.\<close>

definition preamble :: "('t, 'd) world \<Rightarrow> ReviewConfig \<Rightarrow> 'd ReviewProgress list" where
  "preamble w cfg =
     [\<lparr>status = INITIALIZING, message = ''Initializing agents...'',
       progress_percent = 10, timestamp = datetime_now w 0\<rparr>,
      \<lparr>status = SEARCHING,
       message = ''Searching for papers on '' @ [sq] @ topic cfg @ [sq] @ ''...'',
       progress_percent = 25, timestamp = datetime_now w 1\<rparr>,
      \<lparr>status = SUMMARIZING, message = ''Analyzing papers and generating review...'',
       progress_percent = 50, timestamp = datetime_now w 2\<rparr>]"

text \<open>The result of a run that consumed \<open>msgs\<close> and succeeded.\<close>

definition successful_result ::
  "('t::minus, 'd) world \<Rightarrow> ReviewConfig \<Rightarrow> pyval list \<Rightarrow> 't ReviewResult" where
  "successful_result w cfg msgs =
     \<lparr>success = True,
      content = aggregate (filter (\<lambda>s. s \<noteq> []) (map extract_message_content msgs)),
      error_message = [], execution_time = time_time w 1 - time_time w 0,
      config = Some cfg, papers_found = max_results cfg\<rparr>"

text \<open>The event and the result of a run that failed with \<open>e\<close>.\<close>

definition error_event :: "('t, 'd) world \<Rightarrow> exn \<Rightarrow> nat \<Rightarrow> 'd ReviewProgress" where
  "error_event w e n =
     \<lparr>status = ERROR, message = ''Error during literature review: '' @ describe e,
      progress_percent = 0, timestamp = datetime_now w n\<rparr>"

definition failed_result ::
  "('t::minus, 'd) world \<Rightarrow> ReviewConfig \<Rightarrow> exn \<Rightarrow> 't ReviewResult" where
  "failed_result w cfg e =
     \<lparr>success = False, content = [],
      error_message = ''Error during literature review: '' @ describe e,
      execution_time = time_time w 1 - time_time w 0, config = Some cfg, papers_found = 0\<rparr>"

text \<open>A result with the echoed configuration blanked.\<close>

definition forget_config :: "'t ReviewResult \<Rightarrow> 't ReviewResult" where
  "forget_config r = r\<lparr>config := None\<rparr>"

text \<open>The resolution order of the normalizer, and the first field in it that is not
  missing or false.\<close>

definition resolution_order :: "string list" where
  "resolution_order =
     [''content'', ''summary'', ''messages'', ''inner_messages'', ''text'', ''message'']"

fun first_match :: "pyval \<Rightarrow> string list \<Rightarrow> (string \<times> probe) option" where
  "first_match msg [] = None"
| "first_match msg (a # as) =
     (case probe msg a of Falsy \<Rightarrow> first_match msg as | p \<Rightarrow> Some (a, p))"

text \<open>The line at which the narrative starts, in the words of the spec.\<close>

definition narrative_start :: "string \<Rightarrow> bool" where
  "narrative_start line =
     (sublist ''Literature Review:'' line \<or> sublist ''Key Papers'' line \<or>
      (line \<noteq> [] \<and> \<not> is_function_call_message (PyStr line) \<and>
       \<not> is_raw_json_data (PyStr line)))"

text \<open>A section is noise when either classifier holds of it.\<close>

definition noise :: "string \<Rightarrow> bool" where
  "noise s = (is_function_call_message (PyStr s) \<or> is_raw_json_data (PyStr s))"

text \<open>
  The sections of a document as \<open>clean_content\<close> sees them: the pieces between blank
  lines, trimmed, the empty ones left out. \<open>retained\<close> is the list \<open>clean_sections\<close>
  that \<open>clean_content\<close> builds from them.
\<close>

definition sections_of :: "string \<Rightarrow> string list" where
  "sections_of doc = filter (\<lambda>s. s \<noteq> []) (map strip (split doc [nl, nl]))"

definition retained :: "string \<Rightarrow> string list" where
  "retained doc = section_loop [] {} (split doc [nl, nl])"

text \<open>Trimming every line of a text, and then the text.\<close>

definition linetrim :: "string \<Rightarrow> string" where
  "linetrim t = strip (join [nl] (map strip (split t [nl])))"

text \<open>A marker that is not empty and holds no whitespace.\<close>

definition solid :: "string \<Rightarrow> bool" where
  "solid m = (m \<noteq> [] \<and> (\<forall>c \<in> set m. \<not> isspace c))"

text \<open>The elements of a list not seen before, each at its first occurrence.\<close>

fun fresh :: "'a set \<Rightarrow> 'a list \<Rightarrow> 'a list" where
  "fresh seen [] = []"
| "fresh seen (x # xs) = (if x \<in> seen then fresh seen xs else x # fresh (insert x seen) xs)"

text \<open>
  A text is tidy when no whitespace other than a newline stands next to a newline or at
  either end: every line of it is trimmed. A section is neat when it is not empty,
  trimmed, tidy and holds no blank line.
\<close>

definition tidy :: "string \<Rightarrow> bool" where
  "tidy d = (\<forall>w. isspace w \<and> w \<noteq> nl \<longrightarrow>
               \<not> sublist [nl, w] (nl # d @ [nl]) \<and> \<not> sublist [w, nl] (nl # d @ [nl]))"

definition neat :: "string \<Rightarrow> bool" where
  "neat x = (x \<noteq> [] \<and> strip x = x \<and> tidy x \<and> \<not> sublist [nl, nl] x)"

section \<open>Example inputs\<close>

definition demo_config :: ReviewConfig where
  "demo_config = \<lparr>topic = ''federated learning'', max_results = 3,
                   model_name = ''deepseek/deepseek-chat'', max_turns = 2, api_key = None\<rparr>"

definition demo_config' :: ReviewConfig where
  "demo_config' = \<lparr>topic = ''federated learning'', max_results = 3,
                    model_name = ''deepseek/deepseek-chat'', max_turns = 7,
                    api_key = Some ''other-key''\<rparr>"

definition text_message :: "string \<Rightarrow> pyval" where
  "text_message s = PyObj [(''source'', Returns (PyStr ''agent'')),
                           (''content'', Returns (PyStr s))]
                      True ''TextMessage''"

definition demo_messages :: "pyval list" where
  "demo_messages =
     [text_message ''Intro text'',
      text_message (''Literature Review:'' @ [nl] @ ''- Paper A''),
      PyObj [(''messages'', Returns (PyList [text_message ''Intro text'',
                                          text_message ''Closing remark''] ''[...]''))]
        True ''TaskResult'']"

definition demo_world :: "pyval list \<times> stream_end \<Rightarrow> (int, nat) world" where
  "demo_world s = \<lparr>create_literature_review_team = (\<lambda>model key turns. Inr (\<lambda>task. s)),
                    time_time = (\<lambda>n. 5 * int n), datetime_now = (\<lambda>n. n)\<rparr>"

definition failing_world :: "exn \<Rightarrow> (int, nat) world" where
  "failing_world e = \<lparr>create_literature_review_team = (\<lambda>model key turns. Inl e),
                       time_time = (\<lambda>n. 5 * int n), datetime_now = (\<lambda>n. n)\<rparr>"

text \<open>A subscriber that raises when it receives an Error event, and only then.\<close>

definition raises_on_error :: "'d callback" where
  "raises_on_error delivered ev =
     (if status ev = ERROR then Some (Exception ''subscriber failed'') else None)"

text \<open>Two blocks, the second with a line that holds a single space.\<close>

definition padded_blocks :: "string list" where
  "padded_blocks = [''a'', ''a'' @ [nl] @ '' '' @ [nl] @ ''b'']"

definition demo_blocks :: "string list" where
  "demo_blocks =
     [''Intro'', ''[FunctionCall(id=1)]'', ''Intro'', ''Survey by the authors of X'',
      ''Review'' @ [nl] @ ''second line'']"

section \<open>The orchestrator with a subscriber that returns\<close>

lemma update_progress_quiet:
  "update_progress w (Some quiet) d st m p =
     (d @ [\<lparr>status = st, message = m, progress_percent = p,
             timestamp = datetime_now w (length d)\<rparr>], None)"
  by (simp add: update_progress_def quiet_def)

lemma update_progress_None: "update_progress w None d st m p = (d, None)"
  by (simp add: update_progress_def)

lemma stream_loop_quiet_result:
  "snd (stream_loop w (Some quiet) msgs c acc d) =
     Inr (acc @ filter (\<lambda>s. s \<noteq> []) (map extract_message_content msgs))"
  by (induction msgs arbitrary: c acc d) (simp_all add: update_progress_quiet Let_def)

lemma stream_loop_None:
  "stream_loop w None msgs c acc d =
     (d, Inr (acc @ filter (\<lambda>s. s \<noteq> []) (map extract_message_content msgs)))"
  by (induction msgs arbitrary: c acc d) (simp_all add: update_progress_None Let_def)



lemma run_review_try_quiet:
  assumes "create_literature_review_team w (model_name cfg) k 2 = Inr team"
    and "team (review_task cfg) = (msgs, ending)"
  shows "run_review_try k w cfg (Some quiet) =
     (let d4 = fst (stream_loop w (Some quiet) msgs 0 [] (preamble w cfg)) in
      case ending of
        StreamRaises e \<Rightarrow> (d4, 1, Inl e)
      | StopAsyncIteration \<Rightarrow>
          (d4 @ [\<lparr>status = COMPLETED, message = ''Literature review completed successfully!'',
                   progress_percent = 100, timestamp = datetime_now w (length d4)\<rparr>], 2,
           Inr (successful_result w cfg msgs)))"
  using assms
  by (simp add: run_review_try_def update_progress_quiet Let_def split_beta
      stream_loop_quiet_result preamble_def successful_result_def aggregate_def numeral_2_eq_2
      split: stream_end.split)


lemma run_review_team_fails:
  assumes "create_literature_review_team w (model_name cfg) k 2 = Inl e"
  shows "run_review k w cfg (Some quiet) =
           ([\<lparr>status = INITIALIZING, message = ''Initializing agents...'',
               progress_percent = 10, timestamp = datetime_now w 0\<rparr>] @
            [error_event w e 1], Inr (failed_result w cfg e))"
    and "run_review k w cfg None = ([], Inr (failed_result w cfg e))"
  using assms
  by (simp_all add: run_review_def run_review_try_def update_progress_quiet
      update_progress_None error_event_def failed_result_def Let_def)

lemma run_review_stream_fails_quiet:
  assumes "create_literature_review_team w (model_name cfg) k 2 = Inr team"
    and "team (review_task cfg) = (msgs, StreamRaises e)"
  shows "run_review k w cfg (Some quiet) =
           (fst (stream_loop w (Some quiet) msgs 0 [] (preamble w cfg)) @
            [error_event w e (length (fst (stream_loop w (Some quiet) msgs 0 []
               (preamble w cfg))))],
            Inr (failed_result w cfg e))"
  by (simp add: run_review_def run_review_try_quiet [OF assms] update_progress_quiet
      error_event_def failed_result_def Let_def)

lemma run_review_stream_fails_None:
  assumes "create_literature_review_team w (model_name cfg) k 2 = Inr team"
    and "team (review_task cfg) = (msgs, StreamRaises e)"
  shows "run_review k w cfg None = ([], Inr (failed_result w cfg e))"
  using assms
  by (simp add: run_review_def run_review_try_def update_progress_None stream_loop_None
      failed_result_def Let_def)

lemma run_review_succeeds_quiet:
  assumes "create_literature_review_team w (model_name cfg) k 2 = Inr team"
    and "team (review_task cfg) = (msgs, StopAsyncIteration)"
  shows "run_review k w cfg (Some quiet) =
          (fst (stream_loop w (Some quiet) msgs 0 [] (preamble w cfg)) @
           [\<lparr>status = COMPLETED, message = ''Literature review completed successfully!'',
             progress_percent = 100,
             timestamp = datetime_now w (length (fst (stream_loop w (Some quiet) msgs 0 []
               (preamble w cfg))))\<rparr>],
           Inr (successful_result w cfg msgs))"
  by (simp add: run_review_def run_review_try_quiet [OF assms] Let_def)

lemma run_review_succeeds_None:
  assumes "create_literature_review_team w (model_name cfg) k 2 = Inr team"
    and "team (review_task cfg) = (msgs, StopAsyncIteration)"
  shows "run_review k w cfg None = ([], Inr (successful_result w cfg msgs))"
  using assms
  by (simp add: run_review_def run_review_try_def update_progress_None stream_loop_None
      successful_result_def aggregate_def Let_def)

section \<open>Progress events and results of a run\<close>




lemma run_review_raising_subscriber:
  "run_review ''key'' (failing_world (Exception ''invalid api key'')) demo_config
     (Some raises_on_error) =
     ([\<lparr>status = INITIALIZING, message = ''Initializing agents...'', progress_percent = 10,
        timestamp = 0\<rparr>,
       \<lparr>status = ERROR, message = ''Error during literature review: invalid api key'',
        progress_percent = 0, timestamp = 1\<rparr>],
      Inl (Exception ''subscriber failed''))"
  by (simp add: run_review_def run_review_try_def update_progress_def raises_on_error_def
      failing_world_def Let_def)

lemma run_review_raises_only_from_subscriber:
  assumes "snd (run_review k w cfg cb) = Inl e'"
  shows "\<exists>f d ev. cb = Some f \<and> fst (run_review k w cfg cb) = d @ [ev] \<and>
           status ev = ERROR \<and> progress_percent ev = 0 \<and> f d ev = Some e'"
  using assms
  by (auto simp: run_review_def update_progress_def Let_def
      split: prod.splits sum.splits option.splits)

text \<open>
  Claim C2, as the code has it. The handler delivers the Error event outside any \<open>try\<close>,
  so a subscriber that raises there makes \<open>run_review\<close> raise. For every exception that
  \<open>except Exception\<close> catches, raised by team construction or by the stream after any
  number of messages: when the subscriber returns from every call, the last event
  delivered is Error with percent 0 and the prefixed description, and the result has
  \<open>success = False\<close>, the prefixed description as \<open>error_message\<close>, and the difference of
  the two clock readings as \<open>execution_time\<close>; without a subscriber the result is the same
  and nothing is delivered. With any subscriber, an exception leaves \<open>run_review\<close> only
  when the subscriber raises it on receiving the Error event.
\<close>

theorem failure_is_reported_when_subscriber_returns:
  assumes "create_literature_review_team w (model_name cfg) k 2 = Inl e \<or>
           (\<exists>team msgs. create_literature_review_team w (model_name cfg) k 2 = Inr team \<and>
                         team (review_task cfg) = (msgs, StreamRaises e))"
  shows "(\<exists>d. run_review k w cfg (Some quiet) =
                (d @ [\<lparr>status = ERROR,
                        message = ''Error during literature review: '' @ describe e,
                        progress_percent = 0, timestamp = datetime_now w (length d)\<rparr>],
                 Inr \<lparr>success = False, content = [],
                      error_message = ''Error during literature review: '' @ describe e,
                      execution_time = time_time w 1 - time_time w 0,
                      config = Some cfg, papers_found = 0\<rparr>)) \<and>
         run_review k w cfg None =
           ([], Inr \<lparr>success = False, content = [],
                     error_message = ''Error during literature review: '' @ describe e,
                     execution_time = time_time w 1 - time_time w 0,
                     config = Some cfg, papers_found = 0\<rparr>) \<and>
         (\<forall>cb e'. snd (run_review k w cfg cb) = Inl e' \<longrightarrow>
            (\<exists>f d ev. cb = Some f \<and> fst (run_review k w cfg cb) = d @ [ev] \<and>
               status ev = ERROR \<and> progress_percent ev = 0 \<and> f d ev = Some e'))"
proof (intro conjI allI impI)
  show "\<exists>d. run_review k w cfg (Some quiet) =
                (d @ [\<lparr>status = ERROR,
                        message = ''Error during literature review: '' @ describe e,
                        progress_percent = 0, timestamp = datetime_now w (length d)\<rparr>],
                 Inr \<lparr>success = False, content = [],
                      error_message = ''Error during literature review: '' @ describe e,
                      execution_time = time_time w 1 - time_time w 0,
                      config = Some cfg, papers_found = 0\<rparr>)"
    using assms
  proof (elim disjE exE conjE)
    assume a: "create_literature_review_team w (model_name cfg) k 2 = Inl e"
    show ?thesis
      using run_review_team_fails(1) [OF a]
      by (auto simp: error_event_def failed_result_def
          intro!: exI [of _ "[\<lparr>status = INITIALIZING, message = ''Initializing agents...'',
                 progress_percent = 10, timestamp = datetime_now w 0\<rparr>]"])
  next
    fix team msgs
    assume a: "create_literature_review_team w (model_name cfg) k 2 = Inr team"
      and b: "team (review_task cfg) = (msgs, StreamRaises e)"
    show ?thesis
      using run_review_stream_fails_quiet [OF a b]
      by (auto simp: error_event_def failed_result_def)
  qed
  show "run_review k w cfg None =
           ([], Inr \<lparr>success = False, content = [],
                     error_message = ''Error during literature review: '' @ describe e,
                     execution_time = time_time w 1 - time_time w 0,
                     config = Some cfg, papers_found = 0\<rparr>)"
    using assms
  proof (elim disjE exE conjE)
    assume a: "create_literature_review_team w (model_name cfg) k 2 = Inl e"
    show ?thesis
      using run_review_team_fails(2) [OF a] by (simp add: failed_result_def)
  next
    fix team msgs
    assume a: "create_literature_review_team w (model_name cfg) k 2 = Inr team"
      and b: "team (review_task cfg) = (msgs, StreamRaises e)"
    show ?thesis
      using run_review_stream_fails_None [OF a b] by (simp add: failed_result_def)
  qed
next
  fix cb e'
  assume "snd (run_review k w cfg cb) = Inl e'"
  then show "\<exists>f d ev. cb = Some f \<and> fst (run_review k w cfg cb) = d @ [ev] \<and>
               status ev = ERROR \<and> progress_percent ev = 0 \<and> f d ev = Some e'"
    by (rule run_review_raises_only_from_subscriber)
qed

theorem failure_is_reported_when_subscriber_returns_witness:
  "(\<exists>d. run_review ''key'' (failing_world (Exception ''invalid api key'')) demo_config
           (Some quiet) =
          (d @ [\<lparr>status = ERROR,
                  message = ''Error during literature review: invalid api key'',
                  progress_percent = 0, timestamp = length d\<rparr>],
           Inr \<lparr>success = False, content = [],
                error_message = ''Error during literature review: invalid api key'',
                execution_time = 5, config = Some demo_config, papers_found = 0\<rparr>)) \<and>
   run_review ''key'' (failing_world (Exception ''invalid api key'')) demo_config None =
     ([], Inr \<lparr>success = False, content = [],
               error_message = ''Error during literature review: invalid api key'',
               execution_time = 5, config = Some demo_config, papers_found = 0\<rparr>) \<and>
   run_review ''key'' (demo_world (demo_messages, StreamRaises (AttributeError ''timeout'')))
     demo_config None =
     ([], Inr \<lparr>success = False, content = [],
               error_message = ''Error during literature review: timeout'',
               execution_time = 5, config = Some demo_config, papers_found = 0\<rparr>) \<and>
   (\<exists>f d ev. Some raises_on_error = Some f \<and>
      fst (run_review ''key'' (failing_world (Exception ''invalid api key'')) demo_config
             (Some raises_on_error)) = d @ [ev] \<and>
      status ev = ERROR \<and> progress_percent ev = 0 \<and>
      f d ev = Some (Exception ''subscriber failed''))"
proof -
  have s: "\<exists>team msgs.
          create_literature_review_team
            (demo_world (demo_messages, StreamRaises (AttributeError ''timeout'')))
            (model_name demo_config) ''key'' 2 = Inr team \<and>
          team (review_task demo_config) = (msgs, StreamRaises (AttributeError ''timeout''))"
    by (simp add: demo_world_def)
  have t: "create_literature_review_team (failing_world (Exception ''invalid api key''))
             (model_name demo_config) ''key'' 2 = Inl (Exception ''invalid api key'')"
    by (simp add: failing_world_def)
  have r: "snd (run_review ''key'' (failing_world (Exception ''invalid api key'')) demo_config
             (Some raises_on_error)) = Inl (Exception ''subscriber failed'')"
    by (simp add: run_review_raising_subscriber)
  note a = failure_is_reported_when_subscriber_returns
    [of "failing_world (Exception ''invalid api key'')" demo_config "''key''"
        "Exception ''invalid api key''", OF disjI1, OF t]
  note b = failure_is_reported_when_subscriber_returns
    [of "demo_world (demo_messages, StreamRaises (AttributeError ''timeout''))"
        demo_config "''key''" "AttributeError ''timeout''", OF disjI2, OF s]
  from a have a1: "\<exists>d. run_review ''key'' (failing_world (Exception ''invalid api key''))
        demo_config (Some quiet) =
          (d @ [\<lparr>status = ERROR,
                  message = ''Error during literature review: invalid api key'',
                  progress_percent = 0, timestamp = length d\<rparr>],
           Inr \<lparr>success = False, content = [],
                error_message = ''Error during literature review: invalid api key'',
                execution_time = 5, config = Some demo_config, papers_found = 0\<rparr>)"
    by (simp add: failing_world_def)
  from a have a2: "run_review ''key'' (failing_world (Exception ''invalid api key''))
        demo_config None =
     ([], Inr \<lparr>success = False, content = [],
               error_message = ''Error during literature review: invalid api key'',
               execution_time = 5, config = Some demo_config, papers_found = 0\<rparr>)"
    by (simp add: failing_world_def)
  from a r have a3: "\<exists>f d ev. Some raises_on_error = Some f \<and>
      fst (run_review ''key'' (failing_world (Exception ''invalid api key'')) demo_config
             (Some raises_on_error)) = d @ [ev] \<and>
      status ev = ERROR \<and> progress_percent ev = 0 \<and>
      f d ev = Some (Exception ''subscriber failed'')"
    by blast
  from b have b2: "run_review ''key''
        (demo_world (demo_messages, StreamRaises (AttributeError ''timeout'')))
        demo_config None =
     ([], Inr \<lparr>success = False, content = [],
               error_message = ''Error during literature review: timeout'',
               execution_time = 5, config = Some demo_config, papers_found = 0\<rparr>)"
    by (simp add: demo_world_def)
  from a1 a2 b2 a3 show ?thesis by (intro conjI)
qed

text \<open>
  Team construction raises and the subscriber raises on the Error event: \<open>run_review\<close>
  returns no result, the subscriber's exception leaves it.
\<close>

theorem raising_subscriber_counterexample:
  "snd (run_review ''key'' (failing_world (Exception ''invalid api key'')) demo_config
          (Some raises_on_error)) = Inl (Exception ''subscriber failed'')"
  by (simp add: run_review_raising_subscriber)

text \<open>
  Claim C7. A run whose team is built and whose stream ends without raising returns
  \<open>success = True\<close>, as \<open>content\<close> the cleaned aggregation of the non-empty normalized
  messages of the stream, the configuration it was given, and
  \<open>papers_found = max_results\<close> of that configuration, whatever the stream held.
\<close>

theorem successful_run_result:
  assumes "create_literature_review_team w (model_name cfg) k 2 = Inr team"
    and "team (review_task cfg) = (msgs, StopAsyncIteration)"
    and "cb = None \<or> cb = Some quiet"
  shows "snd (run_review k w cfg cb) =
           Inr \<lparr>success = True,
                content = clean_content (join [nl, nl]
                  (filter (\<lambda>s. s \<noteq> []) (map extract_message_content msgs))),
                error_message = [], execution_time = time_time w 1 - time_time w 0,
                config = Some cfg, papers_found = max_results cfg\<rparr>"
  using assms(3) run_review_succeeds_quiet [OF assms(1,2)] run_review_succeeds_None [OF assms(1,2)]
  by (auto simp: successful_result_def aggregate_def)

theorem successful_run_result_witness:
  "snd (run_review ''key'' (demo_world (demo_messages, StopAsyncIteration)) demo_config
          (Some quiet)) =
     Inr \<lparr>success = True,
          content = ''Intro text'' @ [nl, nl] @ ''Literature Review:'' @ [nl] @ ''- Paper A'' @
                    [nl, nl] @ ''Closing remark'',
          error_message = [], execution_time = 5,
          config = Some demo_config, papers_found = 3\<rparr>"
proof -
  have "map extract_message_content demo_messages =
          [''Intro text'', ''Literature Review:'' @ [nl] @ ''- Paper A'', ''Closing remark'']"
    by code_simp
  moreover have "clean_content (join [nl, nl]
      [''Intro text'', ''Literature Review:'' @ [nl] @ ''- Paper A'', ''Closing remark'']) =
      ''Intro text'' @ [nl, nl] @ ''Literature Review:'' @ [nl] @ ''- Paper A'' @
                    [nl, nl] @ ''Closing remark''"
    by code_simp
  ultimately show ?thesis
    using successful_run_result [of "demo_world (demo_messages, StopAsyncIteration)" demo_config
      "''key''" "\<lambda>task. (demo_messages, StopAsyncIteration)" demo_messages "Some quiet"]
    by (simp add: demo_world_def demo_config_def)
qed

lemma run_review_try_cong:
  assumes "topic c1 = topic c2" "max_results c1 = max_results c2" "model_name c1 = model_name c2"
  shows "run_review_try k w c2 cb =
     (case run_review_try k w c1 cb of
        (d, n, r) \<Rightarrow> (d, n, map_sum id (\<lambda>res. res\<lparr>config := Some c2\<rparr>) r))"
  using assms
  by (simp add: run_review_try_def review_task_def Let_def
      split: prod.split option.split sum.split stream_end.split)

text \<open>
  Claim C10. \<open>run_review\<close> reads of its configuration the topic, the requested count and
  the model name only: the team is built from the model name and the key the service
  holds. Two configurations that differ only in \<open>max_turns\<close> and \<open>api_key\<close> give, in the
  same world and with the same subscriber, the same events and the same outcome up to the
  configuration the result echoes.
\<close>

theorem run_review_ignores_max_turns_and_api_key:
  assumes "topic c1 = topic c2" "max_results c1 = max_results c2" "model_name c1 = model_name c2"
  shows "fst (run_review k w c1 cb) = fst (run_review k w c2 cb) \<and>
         map_sum id forget_config (snd (run_review k w c1 cb)) =
         map_sum id forget_config (snd (run_review k w c2 cb))"
  by (simp add: run_review_def run_review_try_cong [OF assms] Let_def forget_config_def
      split: prod.split option.split sum.split)

theorem run_review_ignores_max_turns_and_api_key_witness:
  "max_turns demo_config \<noteq> max_turns demo_config' \<and>
   api_key demo_config \<noteq> api_key demo_config' \<and>
   fst (run_review ''key'' (demo_world (demo_messages, StopAsyncIteration)) demo_config
          (Some quiet)) =
   fst (run_review ''key'' (demo_world (demo_messages, StopAsyncIteration)) demo_config'
          (Some quiet)) \<and>
   map_sum id forget_config
     (snd (run_review ''key'' (demo_world (demo_messages, StopAsyncIteration)) demo_config
             (Some quiet))) =
   map_sum id forget_config
     (snd (run_review ''key'' (demo_world (demo_messages, StopAsyncIteration)) demo_config'
             (Some quiet)))"
  using run_review_ignores_max_turns_and_api_key [of demo_config demo_config' "''key''"
      "demo_world (demo_messages, StopAsyncIteration)" "Some quiet"]
  by (simp add: demo_config_def demo_config'_def)

section \<open>Normalizer and classifier\<close>

text \<open>
  Claim C5, as the code has it. \<open>extract_message_content\<close> looks at the fields in the
  order content, summary, messages, inner_messages, text, message. A field counts as
  absent when the message does not have it, when reading it raises \<open>AttributeError\<close>, and
  when it is false; the next field is then tried. The first field that is present and
  true decides: for content, summary, text and message the result is its string; for
  messages and inner_messages it is the normalization of the last element of the list
  (of the value itself when it is not a list). When no field is present and true, or
  reading the first field that is not absent raises another exception, the result is
  the empty string; the function returns a string on every message.
\<close>

theorem extract_message_content_resolution:
  "extract_message_content msg =
     (case first_match msg resolution_order of
        None \<Rightarrow> []
      | Some (a, Truthy v) \<Rightarrow>
          if a = ''messages'' \<or> a = ''inner_messages''
          then extract_message_content (last_msg v) else str v
      | Some (a, p) \<Rightarrow> []) \<and>
   (map_of (attrs_of msg) b = None \<longrightarrow> probe msg b = Falsy) \<and>
   (map_of (attrs_of msg) b = Some (Raises (AttributeError s)) \<longrightarrow> probe msg b = Falsy) \<and>
   (map_of (attrs_of msg) b = Some (Raises (Exception s)) \<longrightarrow> probe msg b = Raising) \<and>
   (map_of (attrs_of msg) b = Some (Returns v') \<longrightarrow>
      probe msg b = (if truthy v' then Truthy v' else Falsy))"
proof (intro conjI impI)
  show "extract_message_content msg =
     (case first_match msg resolution_order of
        None \<Rightarrow> []
      | Some (a, Truthy v) \<Rightarrow>
          if a = ''messages'' \<or> a = ''inner_messages''
          then extract_message_content (last_msg v) else str v
      | Some (a, p) \<Rightarrow> [])"
    by (subst extract_message_content.simps)
       (simp add: resolution_order_def split: probe.split)
qed (simp_all add: probe_def)

theorem extract_message_content_resolution_witness:
  "extract_message_content
     (PyObj [(''content'', Returns (PyStr [])),
             (''messages'', Returns (PyList [text_message ''first'', text_message ''last'']
                ''[..]'')),
             (''text'', Returns (PyStr ''ignored''))] True ''TaskResult'') = ''last'' \<and>
   extract_message_content
     (PyObj [(''content'', Raises (AttributeError ''unset'')),
             (''summary'', Returns (PyStr ''s''))] True ''x'') = ''s'' \<and>
   extract_message_content
     (PyObj [(''summary'', Raises (Exception ''broken'')),
             (''text'', Returns (PyStr ''t''))] True ''x'') = [] \<and>
   extract_message_content (PyObj [(''source'', Returns (PyStr ''agent''))] True ''x'') = []"
proof -
  note r = extract_message_content_resolution [THEN conjunct1]
  have "extract_message_content (text_message ''last'') = ''last''"
    by (subst r) (simp add: resolution_order_def probe_def text_message_def)
  then show ?thesis
    by (subst (1 2 3 4) r) (simp add: resolution_order_def probe_def)
qed

text \<open>
  Reading \<open>content\<close> raises \<open>AttributeError\<close> and \<open>summary\<close> is set: the error does not
  give the empty string, the summary is returned.
\<close>

theorem attribute_error_counterexample:
  "extract_message_content
     (PyObj [(''content'', Raises (AttributeError ''unset'')),
             (''summary'', Returns (PyStr ''s''))] True ''x'') \<noteq> []"
  by (subst extract_message_content.simps) (simp add: probe_def)

text \<open>
  Claim C6. On an empty string and on a value that is not a string both classifiers
  return false. On a string that contains a marker of the tool-noise list
  \<open>is_function_call_message\<close> returns true; on a string that contains a marker of the
  record list \<open>is_raw_json_data\<close> returns true.
\<close>

theorem classifiers_on_markers_and_non_strings:
  "(\<not> truthy v \<or> \<not> isinstance_str v \<longrightarrow>
      \<not> is_function_call_message v \<and> \<not> is_raw_json_data v) \<and>
   (m \<in> set function_indicators \<and> sublist m s \<longrightarrow> is_function_call_message (PyStr s)) \<and>
   (m' \<in> set json_indicators \<and> sublist m' s' \<longrightarrow> is_raw_json_data (PyStr s'))"
proof -
  have ne: "t \<noteq> []"
    if "i \<in> set function_indicators \<or> i \<in> set json_indicators" "sublist i t" for i t
  proof
    assume "t = []"
    with that(2) have "i = []" by simp
    with that(1) show False
      by (auto simp: function_indicators_def json_indicators_def)
  qed
  show ?thesis
    using ne [of m s] ne [of m' s']
    by (auto simp: is_function_call_message_def is_raw_json_data_def list_ex_iff)
qed

theorem classifiers_on_markers_and_non_strings_witness:
  "\<not> is_function_call_message (PyStr []) \<and> \<not> is_raw_json_data (PyStr []) \<and>
   \<not> is_function_call_message (PyList [PyStr ''call_id=''] ''[call_id=]'') \<and>
   \<not> is_raw_json_data (PyObj [] True (''{'' @ [sq] @ ''title'' @ [sq] @ '':'')) \<and>
   is_function_call_message (PyStr ''x call_id=3'') \<and>
   is_raw_json_data (PyStr (''[{'' @ [sq] @ ''title'' @ [sq] @ '': 1}]''))"
proof -
  have a: "''call_id='' \<in> set function_indicators"
    by (simp add: function_indicators_def)
  have b: "sublist ''call_id='' ''x call_id=3''"
    by (simp add: sublist_code)
  have c: "''{'' @ [sq] @ ''title'' @ [sq] @ '':'' \<in> set json_indicators"
    by (simp add: json_indicators_def)
  have d: "sublist (''{'' @ [sq] @ ''title'' @ [sq] @ '':'') (''[{'' @ [sq] @ ''title'' @ [sq] @ '': 1}]'')"
    by (simp add: sublist_code)
  show ?thesis
    using classifiers_on_markers_and_non_strings [of "PyStr []" "''call_id=''" "''x call_id=3''"
        "''{'' @ [sq] @ ''title'' @ [sq] @ '':''" "''[{'' @ [sq] @ ''title'' @ [sq] @ '': 1}]''"]
      classifiers_on_markers_and_non_strings [of "PyList [PyStr ''call_id=''] ''[call_id=]''"
        "''call_id=''" "''x call_id=3''"
        "''{'' @ [sq] @ ''title'' @ [sq] @ '':''" "''[{'' @ [sq] @ ''title'' @ [sq] @ '': 1}]''"]
      classifiers_on_markers_and_non_strings [of "PyObj [] True (''{'' @ [sq] @ ''title'' @ [sq] @ '':'')"
        "''call_id=''" "''x call_id=3''"
        "''{'' @ [sq] @ ''title'' @ [sq] @ '':''" "''[{'' @ [sq] @ ''title'' @ [sq] @ '': 1}]''"]
      a b c d
    by simp
qed

section \<open>Extraction of the final narrative\<close>

lemma narrative_start_Nil: "\<not> narrative_start []"
  by (simp add: narrative_start_def)

lemma review_loop_started: "review_loop True acc ls = acc @ map strip ls"
  by (induction ls arbitrary: acc) (simp_all add: Let_def)

lemma review_loop_not_started:
  "review_loop False acc ls = acc @ dropWhile (\<lambda>l. \<not> narrative_start l) (map strip ls)"
proof (induction ls arbitrary: acc)
  case Nil
  show ?case by simp
next
  case (Cons l ls)
  show ?case
  proof (cases "narrative_start (strip l)")
    case True
    then have "strip l \<noteq> []" using narrative_start_Nil by auto
    with True show ?thesis
      by (auto simp: Let_def review_loop_started narrative_start_def)
  next
    case False
    then show ?thesis
      by (auto simp: Let_def Cons.IH narrative_start_def)
  qed
qed

lemma extract_final_review_only_eq:
  "extract_final_review_only doc =
     strip (join [nl] (dropWhile (\<lambda>l. \<not> narrative_start l) (map strip (split doc [nl]))))"
proof (cases "doc = []")
  case True
  then show ?thesis
    by (simp add: extract_final_review_only_def split_def narrative_start_Nil strip_def)
next
  case False
  then show ?thesis
    by (simp add: extract_final_review_only_def review_loop_not_started)
qed

text \<open>
  Claim C4, as the code has it. Every line of the input is trimmed of its leading and
  trailing whitespace; the lines before the first trimmed line that starts the narrative
  are dropped; that line and every later one, blank ones included, are joined by a
  newline in their order, and the joined text is trimmed once more.
\<close>

theorem extract_final_review_only_trims_lines:
  "extract_final_review_only doc =
     strip (join [nl] (dropWhile (\<lambda>l. \<not> narrative_start l) (map strip (split doc [nl]))))"
  by (rule extract_final_review_only_eq)

theorem extract_final_review_only_trims_lines_witness:
  "extract_final_review_only (''Intro'' @ [nl] @ ''  x  '' @ [nl] @ [nl] @ '' y'' @ [nl]) =
     ''Intro'' @ [nl] @ ''x'' @ [nl] @ [nl] @ ''y''"
proof -
  have "strip (join [nl] (dropWhile (\<lambda>l. \<not> narrative_start l)
          (map strip (split (''Intro'' @ [nl] @ ''  x  '' @ [nl] @ [nl] @ '' y'' @ [nl]) [nl])))) =
        ''Intro'' @ [nl] @ ''x'' @ [nl] @ [nl] @ ''y''"
    by code_simp
  then show ?thesis
    by (simp only: extract_final_review_only_trims_lines)
qed

theorem line_kept_verbatim_counterexample:
  "\<not> sublist ''  x  '' (extract_final_review_only (''Intro'' @ [nl] @ ''  x  ''))"
  by code_simp

section \<open>Strip, split and join\<close>

subsection \<open>Trimming\<close>

lemma isspace_nl: "isspace nl"
  by (simp add: isspace_def whitespace_def nl_def)

lemma sublist_strip: "sublist (strip s) s"
proof -
  have "sublist (rev (strip s)) (rev (dropWhile isspace s))"
    by (simp add: strip_def)
  then have "sublist (strip s) (dropWhile isspace s)"
    by (simp only: sublist_rev)
  then show ?thesis
    using sublist_dropWhile sublist_order.order_trans by blast
qed

lemma strip_Nil: "strip [] = []"
  by (simp add: strip_def)

lemma dropWhile_all_then_Nil:
  "(\<forall>x \<in> set (dropWhile P xs). P x) \<longleftrightarrow> dropWhile P xs = []"
proof
  assume a: "\<forall>x \<in> set (dropWhile P xs). P x"
  show "dropWhile P xs = []"
  proof (rule ccontr)
    assume ne: "dropWhile P xs \<noteq> []"
    then have "\<not> P (hd (dropWhile P xs))" by (rule hd_dropWhile)
    with a ne show False by simp
  qed
next
  assume "dropWhile P xs = []"
  then show "\<forall>x \<in> set (dropWhile P xs). P x" by (simp only: list.set ball_empty)
qed

lemma strip_eq_Nil: "strip s = [] \<longleftrightarrow> (\<forall>c \<in> set s. isspace c)"
  by (simp add: strip_def dropWhile_eq_Nil_conv dropWhile_all_then_Nil)

lemma strip_fixed: "s \<noteq> [] \<Longrightarrow> \<not> isspace (hd s) \<Longrightarrow> \<not> isspace (last s) \<Longrightarrow> strip s = s"
proof -
  assume a: "s \<noteq> []" "\<not> isspace (hd s)" "\<not> isspace (last s)"
  then have "dropWhile isspace s = s" by (cases s) auto
  moreover from a have "dropWhile isspace (rev s) = rev s"
    by (cases "rev s") (auto simp: hd_rev)
  ultimately show ?thesis by (simp add: strip_def)
qed

lemma strip_ends:
  assumes "strip s \<noteq> []"
  shows "\<not> isspace (hd (strip s))" and "\<not> isspace (last (strip s))"
proof -
  let ?d = "dropWhile isspace (rev (dropWhile isspace s))"
  from assms have ne: "?d \<noteq> []" by (simp add: strip_def)
  then have "\<not> isspace (hd ?d)" by (rule hd_dropWhile)
  then show "\<not> isspace (last (strip s))"
    using ne by (simp add: strip_def last_rev)
  have d1: "dropWhile isspace s \<noteq> []" using ne by (metis dropWhile.simps(1) rev_is_Nil_conv)
  then have h: "\<not> isspace (hd (dropWhile isspace s))" by (rule hd_dropWhile)
  obtain k where "?d = drop k (rev (dropWhile isspace s))"
    by (metis dropWhile_eq_drop)
  then have "rev ?d = take (length (dropWhile isspace s) - k) (dropWhile isspace s)"
    by (simp add: rev_drop)
  moreover have "rev ?d \<noteq> []" using ne by simp
  ultimately have "hd (rev ?d) = hd (dropWhile isspace s)"
    by (metis hd_take take_eq_Nil not_gr_zero)
  with h show "\<not> isspace (hd (strip s))" by (simp add: strip_def)
qed

lemma strip_idem: "strip (strip s) = strip s"
proof (cases "strip s = []")
  case True
  then show ?thesis by (simp add: strip_Nil)
next
  case False
  then show ?thesis using strip_ends [OF False] by (intro strip_fixed)
qed

subsection \<open>A marker does not reach across whitespace\<close>

lemma two_sublist_append:
  "sublist [x, y] (u @ c # v) \<Longrightarrow> sublist [x, y] (u @ [c]) \<or> sublist [x, y] (c # v)"
proof (induction u)
  case Nil
  then show ?case by simp
next
  case (Cons a u)
  from Cons.prems have "prefix [x, y] (a # u @ c # v) \<or> sublist [x, y] (u @ c # v)"
    by (simp add: sublist_Cons_right)
  then show ?case
  proof
    assume p: "prefix [x, y] (a # u @ c # v)"
    then have "prefix [x, y] (a # u @ [c])"
      by (cases u) auto
    then show ?thesis by (auto simp: sublist_Cons_right)
  next
    assume "sublist [x, y] (u @ c # v)"
    with Cons.IH show ?thesis by (auto simp: sublist_Cons_right)
  qed
qed

lemma solid_not_prefix_space:
  assumes "solid m" "isspace c"
  shows "\<not> prefix m (c # b)"
proof
  assume "prefix m (c # b)"
  with assms(1) have "hd m = c" "m \<noteq> []"
    by (auto simp: solid_def prefix_Cons)
  with assms show False by (auto simp: solid_def)
qed

lemma solid_sublist_space:
  assumes "solid m" "isspace c" "sublist m (a @ c # b)"
  shows "sublist m a \<or> sublist m b"
  using assms(3)
proof (induction a)
  case Nil
  then show ?case
    using solid_not_prefix_space [OF assms(1,2)] by (simp add: sublist_Cons_right)
next
  case (Cons x a)
  from Cons.prems have "prefix m (x # a @ c # b) \<or> sublist m (a @ c # b)"
    by (simp add: sublist_Cons_right)
  then show ?case
  proof
    assume "prefix m (x # a @ c # b)"
    then have "prefix m ((x # a) @ c # b)" by simp
    then have "prefix m (x # a) \<or> (\<exists>us. m = (x # a) @ us \<and> prefix us (c # b))"
      by (simp only: prefix_append)
    then show ?thesis
    proof
      assume "prefix m (x # a)"
      then show ?thesis by auto
    next
      assume "\<exists>us. m = (x # a) @ us \<and> prefix us (c # b)"
      then obtain us where m: "m = (x # a) @ us" and p: "prefix us (c # b)" by blast
      show ?thesis
      proof (cases us)
        case Nil
        with m show ?thesis by simp
      next
        case (Cons u us')
        with p have "u = c" by simp
        with m Cons assms(1,2) show ?thesis by (auto simp: solid_def)
      qed
    qed
  next
    assume "sublist m (a @ c # b)"
    with Cons.IH show ?thesis by (auto simp: sublist_Cons_right)
  qed
qed

lemma solid_sublist_spaces:
  assumes "solid m" "\<forall>c \<in> set sep. isspace c" "sublist m (sep @ b)"
  shows "sublist m b"
  using assms(2,3)
proof (induction sep)
  case Nil
  then show ?case by simp
next
  case (Cons c sep)
  then have "isspace c" "sublist m ([] @ c # (sep @ b))" by simp_all
  from solid_sublist_space [OF assms(1) this] assms(1) have "sublist m (sep @ b)"
    by (simp add: solid_def)
  with Cons show ?case by simp
qed

lemma solid_sublist_sep:
  assumes "solid m" "sep \<noteq> []" "\<forall>c \<in> set sep. isspace c" "sublist m (a @ sep @ b)"
  shows "sublist m a \<or> sublist m b"
proof -
  from assms(2) obtain c sep' where sep: "sep = c # sep'" by (cases sep) auto
  with assms(3,4) have "isspace c" "sublist m (a @ c # (sep' @ b))" by simp_all
  from solid_sublist_space [OF assms(1) this]
  show ?thesis using solid_sublist_spaces [OF assms(1), of sep' b] assms(3) sep by auto
qed

lemma solid_sublist_join:
  assumes "solid m" "sep \<noteq> []" "\<forall>c \<in> set sep. isspace c"
  shows "sublist m (join sep xs) \<Longrightarrow> \<exists>x \<in> set xs. sublist m x"
proof (induction xs)
  case Nil
  with assms(1) show ?case by (simp add: solid_def)
next
  case (Cons x xs)
  show ?case
  proof (cases xs)
    case Nil
    with Cons.prems show ?thesis by simp
  next
    case (Cons y ys)
    with Cons.prems have "sublist m (x @ sep @ join sep xs)" by simp
    from solid_sublist_sep [OF assms this] Cons.IH show ?thesis by auto
  qed
qed

subsection \<open>Splitting and joining\<close>

lemma split_from_not_Nil: "split_from sep acc s \<noteq> []"
  by (induction sep acc s rule: split_from.induct) auto

lemma join_split_from: "sep \<noteq> [] \<Longrightarrow> join sep (split_from sep acc s) = acc @ s"
proof (induction sep acc s rule: split_from.induct)
  case (1 sep acc)
  show ?case by simp
next
  case (2 sep acc c cs)
  show ?case
  proof (cases "prefix sep (c # cs)")
    case True
    then obtain r where r: "c # cs = sep @ r" by (auto simp: prefix_def)
    then have d: "drop (length sep) (c # cs) = r" by simp
    obtain p ps where sp: "split_from sep [] r = p # ps"
      using split_from_not_Nil [of sep "[]" r] by (cases "split_from sep [] r") auto
    from 2 True d have j: "join sep (split_from sep [] r) = r" by simp
    from True 2(3) d have "split_from sep acc (c # cs) = acc # split_from sep [] r" by simp
    with j sp have "join sep (split_from sep acc (c # cs)) = acc @ sep @ r" by simp
    with r show ?thesis by simp
  next
    case False
    with 2 show ?thesis by simp
  qed
qed

lemma split_from_pieces:
  "p \<in> set (split_from sep acc s) \<Longrightarrow>
   \<exists>pre post. acc @ s = pre @ p @ post \<and> (pre = [] \<or> suffix sep pre) \<and> (post = [] \<or> prefix sep post)"
proof (induction sep acc s rule: split_from.induct)
  case (1 sep acc)
  then have "acc @ [] = [] @ p @ []" by simp
  then show ?case by blast
next
  case (2 sep acc c cs)
  show ?case
  proof (cases "sep \<noteq> [] \<and> prefix sep (c # cs)")
    case True
    then obtain r where r: "c # cs = sep @ r" by (auto simp: prefix_def)
    then have d: "drop (length sep) (c # cs) = r" by simp
    from 2(3) True d have "p = acc \<or> p \<in> set (split_from sep [] r)" by auto
    then show ?thesis
    proof
      assume "p = acc"
      with True have "acc @ c # cs = [] @ p @ (c # cs) \<and> prefix sep (c # cs)" by simp
      then show ?thesis by blast
    next
      assume "p \<in> set (split_from sep [] r)"
      with 2(1) [OF True] d have "\<exists>pre post. [] @ r = pre @ p @ post \<and>
          (pre = [] \<or> suffix sep pre) \<and> (post = [] \<or> prefix sep post)"
        by simp
      then obtain pre post where
        "[] @ r = pre @ p @ post" "pre = [] \<or> suffix sep pre" "post = [] \<or> prefix sep post"
        by blast
      then have "acc @ c # cs = (acc @ sep @ pre) @ p @ post \<and> suffix sep (acc @ sep @ pre) \<and>
          (post = [] \<or> prefix sep post)"
        using r by (auto simp: suffix_def)
      then show ?thesis by blast
    qed
  next
    case False
    with 2(2,3) show ?thesis by auto
  qed
qed

subsection \<open>Noise, and the loop over the sections\<close>

lemma markers_solid:
  "\<forall>m \<in> set function_indicators \<union> set json_indicators. solid m"
  by (simp add: function_indicators_def json_indicators_def solid_def isspace_def
      whitespace_def sq_def dq_def)

lemma noise_iff:
  "noise s \<longleftrightarrow> (\<exists>m \<in> set function_indicators \<union> set json_indicators. sublist m s)"
proof -
  have "s \<noteq> []" if "m \<in> set function_indicators \<union> set json_indicators" "sublist m s" for m
    using that markers_solid by (auto simp: solid_def)
  then show ?thesis
    by (auto simp: noise_def is_function_call_message_def is_raw_json_data_def list_ex_iff)
qed

lemma noise_mono: "noise a \<Longrightarrow> sublist a b \<Longrightarrow> noise b"
  using sublist_order.order_trans by (auto simp: noise_iff)

lemma noise_join:
  assumes "noise (join sep xs)" "sep \<noteq> []" "\<forall>c \<in> set sep. isspace c"
  shows "\<exists>x \<in> set xs. noise x"
proof -
  from assms(1) obtain m where m: "m \<in> set function_indicators \<union> set json_indicators"
    and s: "sublist m (join sep xs)" by (auto simp: noise_iff)
  from m markers_solid have "solid m" by blast
  from solid_sublist_join [OF this assms(2,3) s] m show ?thesis by (auto simp: noise_iff)
qed

lemma section_loop_fresh:
  "section_loop acc seen ss =
     acc @ fresh seen (filter (\<lambda>s. s \<noteq> [] \<and> \<not> noise s) (map strip ss))"
  by (induction ss arbitrary: acc seen) (simp_all add: Let_def noise_def)

lemma set_fresh: "set (fresh seen xs) = set xs - seen"
  by (induction xs arbitrary: seen) auto

lemma distinct_fresh: "distinct (fresh seen xs)"
  by (induction xs arbitrary: seen) (auto simp: set_fresh)

lemma subseq_fresh: "subseq (fresh seen xs) xs"
  by (induction xs arbitrary: seen) auto

lemma fresh_distinct: "distinct xs \<Longrightarrow> set xs \<inter> seen = {} \<Longrightarrow> fresh seen xs = xs"
  by (induction xs arbitrary: seen) auto

lemma retained_eq:
  "retained doc = fresh {} (filter (\<lambda>s. \<not> noise s) (sections_of doc))"
  by (simp add: retained_def sections_of_def section_loop_fresh conj_commute)

subsection \<open>The output is the retained sections, joined and trimmed by line\<close>

lemma narrative_start_clean: "l \<noteq> [] \<Longrightarrow> \<not> noise l \<Longrightarrow> narrative_start l"
  by (simp add: narrative_start_def noise_def)

lemma strip_Cons_space: "isspace c \<Longrightarrow> strip (c # s) = strip s"
  by (simp add: strip_def)

lemma join_Nil_Cons: "join sep ([] # ls) = (if ls = [] then [] else sep @ join sep ls)"
  by (cases ls) simp_all

lemma strip_join_drop_empty:
  "strip (join [nl] (dropWhile (\<lambda>l. l = []) ls)) = strip (join [nl] ls)"
proof (induction ls)
  case Nil
  show ?case by simp
next
  case (Cons l ls)
  show ?case
  proof (cases "l = []")
    case True
    with Cons show ?thesis
      by (simp add: join_Nil_Cons strip_Cons_space isspace_nl strip_Nil)
  next
    case False
    then show ?thesis by simp
  qed
qed

lemma split_piece_sublist: "p \<in> set (split s sep) \<Longrightarrow> sublist p s"
  using split_from_pieces [of p sep "[]" s] by (auto simp: split_def sublist_def)

lemma join_split: "sep \<noteq> [] \<Longrightarrow> join sep (split s sep) = s"
  by (simp add: split_def join_split_from)

lemma set_join_subset: "set (join sep xs) \<subseteq> \<Union> (set ` set xs) \<union> set sep"
  by (induction sep xs rule: join.induct) auto

lemma set_join_superset: "x \<in> set xs \<Longrightarrow> set x \<subseteq> set (join sep xs)"
  by (induction sep xs rule: join.induct) auto

lemma set_dropWhile_keeps: "c \<in> set s \<Longrightarrow> \<not> P c \<Longrightarrow> c \<in> set (dropWhile P s)"
  by (induction s) auto

lemma set_strip_keeps: "c \<in> set s \<Longrightarrow> \<not> isspace c \<Longrightarrow> c \<in> set (strip s)"
  by (simp add: strip_def set_dropWhile_keeps)

lemma linetrim_keeps:
  assumes "c \<in> set t" "\<not> isspace c"
  shows "c \<in> set (linetrim t)"
proof -
  from assms(1) have "c \<in> set (join [nl] (split t [nl]))" by (simp add: join_split)
  with set_join_subset [of "[nl]" "split t [nl]"] assms(2) isspace_nl
  obtain l where l: "l \<in> set (split t [nl])" "c \<in> set l" by auto
  then have "c \<in> set (strip l)" using assms(2) by (simp add: set_strip_keeps)
  moreover have "strip l \<in> set (map strip (split t [nl]))" using l by simp
  ultimately have "c \<in> set (join [nl] (map strip (split t [nl])))"
    using set_join_superset by blast
  then show ?thesis using assms(2) by (simp add: linetrim_def set_strip_keeps)
qed

lemma retained_props:
  assumes "x \<in> set (retained doc)"
  shows "x \<noteq> []" "\<not> noise x" "strip x = x"
  using assms by (auto simp: retained_eq set_fresh sections_of_def strip_idem)

lemma extract_clean:
  assumes "\<forall>x \<in> set xs. \<not> noise x"
  shows "extract_final_review_only (join [nl, nl] xs) = linetrim (join [nl, nl] xs)"
proof -
  let ?t = "join [nl, nl] xs"
  let ?ls = "map strip (split ?t [nl])"
  have "\<not> noise l" if "l \<in> set ?ls" for l
  proof
    assume n: "noise l"
    from that obtain l' where "l' \<in> set (split ?t [nl])" "l = strip l'" by auto
    then have "sublist l ?t"
      using split_piece_sublist sublist_strip sublist_order.order_trans by blast
    with n have "noise ?t" by (rule noise_mono)
    then have "\<exists>x \<in> set xs. noise x"
      by (rule noise_join) (simp_all add: isspace_nl)
    with assms show False by blast
  qed
  then have "dropWhile (\<lambda>l. \<not> narrative_start l) ?ls = dropWhile (\<lambda>l. l = []) ?ls"
    by (intro dropWhile_cong refl) (use narrative_start_Nil narrative_start_clean in blast)
  then show ?thesis
    by (simp add: extract_final_review_only_eq linetrim_def strip_join_drop_empty)
qed

lemma clean_content_eq: "clean_content doc = linetrim (join [nl, nl] (retained doc))"
proof (cases "doc = []")
  case True
  then show ?thesis
    by (simp add: clean_content_def retained_def split_def strip_Nil linetrim_def)
next
  case False
  let ?t = "join [nl, nl] (retained doc)"
  have e: "extract_final_review_only ?t = linetrim ?t"
    using retained_props(2) by (intro extract_clean) blast
  show ?thesis
  proof (cases "retained doc")
    case Nil
    with False e show ?thesis
      by (simp add: clean_content_def retained_def Let_def)
  next
    case (Cons x xs)
    then have x: "x \<in> set (retained doc)" by simp
    from retained_props [OF x] have "\<not> isspace (hd x)" "hd x \<in> set x"
      using strip_ends(1) [of x] by simp_all
    moreover have "set x \<subseteq> set ?t" using x by (rule set_join_superset)
    ultimately have "hd x \<in> set (linetrim ?t)" by (intro linetrim_keeps) auto
    then have "linetrim ?t \<noteq> []" by auto
    with False e show ?thesis
      by (simp add: clean_content_def retained_def Let_def)
  qed
qed

lemma sublist_trans: "sublist a b \<Longrightarrow> sublist b c \<Longrightarrow> sublist a c"
  by (rule sublist_order.order_trans)

lemma strip_piece_sublist: "p \<in> set (split s sep) \<Longrightarrow> sublist (strip p) s"
  by (rule sublist_trans [OF sublist_strip split_piece_sublist])

lemma noise_linetrim: "noise (linetrim t) \<Longrightarrow> noise t"
proof -
  assume "noise (linetrim t)"
  then have "noise (join [nl] (map strip (split t [nl])))"
    unfolding linetrim_def using sublist_strip by (rule noise_mono)
  then have "\<exists>l \<in> set (map strip (split t [nl])). noise l"
    by (rule noise_join) (simp_all add: isspace_nl)
  then obtain l' where l': "l' \<in> set (split t [nl])" "noise (strip l')" by auto
  from l'(1) have "sublist (strip l') t" by (rule strip_piece_sublist)
  with l'(2) show "noise t" by (rule noise_mono)
qed

lemma clean_content_not_noise: "\<not> noise (clean_content doc)"
proof
  assume "noise (clean_content doc)"
  then have "noise (join [nl, nl] (retained doc))"
    by (simp add: clean_content_eq noise_linetrim)
  then have "\<exists>x \<in> set (retained doc). noise x"
    by (rule noise_join) (simp_all add: isspace_nl)
  with retained_props(2) show False by blast
qed

lemma sections_of_sublist: "s \<in> set (sections_of doc) \<Longrightarrow> sublist s doc"
  by (auto simp: sections_of_def strip_piece_sublist)

lemma sections_of_clean_not_noise:
  assumes "s \<in> set (sections_of (clean_content doc))"
  shows "\<not> noise s"
proof
  assume "noise s"
  from noise_mono [OF this sections_of_sublist [OF assms]] clean_content_not_noise
  show False by blast
qed

subsection \<open>Tidy texts\<close>

lemma tidy_mono:
  assumes "tidy d" "sublist (nl # p @ [nl]) (nl # d @ [nl])"
  shows "tidy p"
  unfolding tidy_def
proof (intro allI impI conjI)
  fix w assume w: "isspace w \<and> w \<noteq> nl"
  show "\<not> sublist [nl, w] (nl # p @ [nl])"
  proof
    assume "sublist [nl, w] (nl # p @ [nl])"
    from sublist_trans [OF this assms(2)] assms(1) w show False by (simp add: tidy_def)
  qed
  show "\<not> sublist [w, nl] (nl # p @ [nl])"
  proof
    assume "sublist [w, nl] (nl # p @ [nl])"
    from sublist_trans [OF this assms(2)] assms(1) w show False by (simp add: tidy_def)
  qed
qed

lemma tidy_Nil: "tidy []"
  by (auto simp: tidy_def sublist_code)

lemma tidy_glue:
  assumes "tidy a" "tidy b"
  shows "tidy (a @ nl # b)"
  unfolding tidy_def
proof (intro allI impI)
  fix w assume w: "isspace w \<and> w \<noteq> nl"
  have e: "nl # (a @ nl # b) @ [nl] = (nl # a) @ nl # (b @ [nl])" by simp
  have a: "\<not> sublist [nl, w] ((nl # a) @ [nl])" "\<not> sublist [w, nl] ((nl # a) @ [nl])"
    using assms(1) w by (simp_all add: tidy_def)
  have b: "\<not> sublist [nl, w] (nl # (b @ [nl]))" "\<not> sublist [w, nl] (nl # (b @ [nl]))"
    using assms(2) w by (simp_all add: tidy_def)
  from two_sublist_append [of nl w "nl # a" nl "b @ [nl]"] a(1) b(1)
  have 1: "\<not> sublist [nl, w] ((nl # a) @ nl # (b @ [nl]))" by blast
  from two_sublist_append [of w nl "nl # a" nl "b @ [nl]"] a(2) b(2)
  have 2: "\<not> sublist [w, nl] ((nl # a) @ nl # (b @ [nl]))" by blast
  from 1 2 show "\<not> sublist [nl, w] (nl # (a @ nl # b) @ [nl]) \<and>
      \<not> sublist [w, nl] (nl # (a @ nl # b) @ [nl])"
    unfolding e by simp
qed

lemma tidy_join:
  assumes "sep = [nl] \<or> sep = [nl, nl]"
  shows "\<forall>x \<in> set xs. tidy x \<Longrightarrow> tidy (join sep xs)"
proof (induction xs)
  case Nil
  show ?case by (simp add: tidy_Nil)
next
  case (Cons x xs)
  show ?case
  proof (cases xs)
    case Nil
    with Cons.prems show ?thesis by simp
  next
    case xs: (Cons y ys)
    from Cons.prems Cons.IH have t: "tidy x" "tidy (join sep xs)" by simp_all
    from assms show ?thesis
    proof
      assume "sep = [nl]"
      with xs tidy_glue [OF t] show ?thesis by simp
    next
      assume "sep = [nl, nl]"
      with xs tidy_glue [OF t(1) tidy_glue [OF tidy_Nil t(2)]] show ?thesis by simp
    qed
  qed
qed

lemma tidy_line:
  assumes "strip l = l" "nl \<notin> set l"
  shows "tidy l"
  unfolding tidy_def
proof (intro allI impI conjI)
  fix w assume w: "isspace w \<and> w \<noteq> nl"
  have ends: "\<not> isspace (hd l)" "\<not> isspace (last l)" if "l \<noteq> []"
    using strip_ends [of l] assms(1) that by simp_all
  have in_l: "\<not> sublist [nl, w] l" "\<not> sublist [w, nl] l"
    using assms(2) set_mono_sublist by fastforce+
  show "\<not> sublist [nl, w] (nl # l @ [nl])"
  proof
    assume "sublist [nl, w] (nl # l @ [nl])"
    then have "prefix [w] (l @ [nl]) \<or> sublist [nl, w] (l @ [nl])"
      by (simp add: sublist_Cons_right)
    then show False
    proof
      assume p: "prefix [w] (l @ [nl])"
      show False
      proof (cases l)
        case Nil
        with p w show False by simp
      next
        case (Cons c l')
        with p have "w = hd l" by simp
        with w ends(1) Cons show False by simp
      qed
    next
      assume "sublist [nl, w] (l @ [nl])"
      then have "sublist ([nl] @ [w]) (l @ [nl])" by simp
      then have "sublist ([nl] @ [w]) l" using w by (simp only: snoc_sublist_snoc) auto
      with in_l show False by simp
    qed
  qed
  show "\<not> sublist [w, nl] (nl # l @ [nl])"
  proof
    assume "sublist [w, nl] (nl # l @ [nl])"
    then have "sublist [w, nl] (l @ [nl])" using w
      by (simp add: sublist_Cons_right)
    then have "sublist ([w] @ [nl]) (l @ [nl])" by simp
    then have "suffix [w] l \<or> sublist ([w] @ [nl]) l" by (simp only: snoc_sublist_snoc) auto
    then show False
    proof
      assume s: "suffix [w] l"
      then have "l \<noteq> []" "last l = w" by (auto simp: suffix_def)
      with w ends(2) show False by simp
    next
      assume "sublist ([w] @ [nl]) l"
      with in_l show False by simp
    qed
  qed
qed

lemma tidy_rev: "tidy (rev d) = tidy d"
proof -
  have e: "nl # rev d @ [nl] = rev (nl # d @ [nl])" by simp
  have "sublist [a, b] (nl # rev d @ [nl]) = sublist [b, a] (nl # d @ [nl])" for a b
    unfolding e by (simp only: sublist_rev_right) simp
  then show ?thesis by (auto simp: tidy_def)
qed

lemma tidy_dropWhile: "tidy d \<Longrightarrow> tidy (dropWhile isspace d)"
proof (induction d)
  case Nil
  then show ?case by simp
next
  case (Cons c d)
  show ?case
  proof (cases "isspace c")
    case True
    have "c = nl"
    proof (rule ccontr)
      assume "c \<noteq> nl"
      with True Cons.prems have "\<not> sublist [nl, c] (nl # (c # d) @ [nl])"
        unfolding tidy_def by blast
      then show False by (simp add: sublist_Cons_right)
    qed
    then have "sublist (nl # d @ [nl]) (nl # (c # d) @ [nl])"
      by (simp add: sublist_Cons_right)
    with Cons.prems have "tidy d" by (rule tidy_mono)
    with Cons.IH True show ?thesis by simp
  next
    case False
    with Cons.prems show ?thesis by simp
  qed
qed

lemma tidy_strip: "tidy d \<Longrightarrow> tidy (strip d)"
  by (simp add: strip_def tidy_rev tidy_dropWhile)

lemma tidy_between:
  assumes "tidy (pre @ p @ post)" "pre = [] \<or> suffix [nl] pre" "post = [] \<or> prefix [nl] post"
  shows "tidy p"
proof -
  from assms(2) obtain ps where ps: "nl # pre = ps @ [nl]"
    by (auto simp: suffix_def)
  from assms(3) obtain ss where ss: "post @ [nl] = nl # ss"
    by (auto simp: prefix_def)
  have "nl # (pre @ p @ post) @ [nl] = (nl # pre) @ p @ (post @ [nl])" by simp
  also have "\<dots> = ps @ (nl # p @ [nl]) @ ss" unfolding ps ss by simp
  finally have "sublist (nl # p @ [nl]) (nl # (pre @ p @ post) @ [nl])"
    by (metis sublist_appendI)
  with assms(1) show ?thesis by (rule tidy_mono)
qed

lemma suffix_two_one: "suffix [a, b] xs \<Longrightarrow> suffix [b] xs"
  by (auto simp: suffix_def)

lemma prefix_two_one: "prefix [a, b] xs \<Longrightarrow> prefix [a] xs"
  by (auto simp: prefix_def)

lemma tidy_piece:
  assumes "tidy d" "sep = [nl] \<or> sep = [nl, nl]" "p \<in> set (split d sep)"
  shows "tidy p"
proof -
  from split_from_pieces [of p sep "[]" d] assms(3) obtain pre post where
    d: "d = pre @ p @ post" and b: "pre = [] \<or> suffix sep pre" "post = [] \<or> prefix sep post"
    by (auto simp: split_def)
  from b(1) assms(2) have 1: "pre = [] \<or> suffix [nl] pre"
    by (auto dest: suffix_two_one)
  from b(2) assms(2) have 2: "post = [] \<or> prefix [nl] post"
    by (auto dest: prefix_two_one)
  from assms(1) show ?thesis unfolding d using 1 2 by (rule tidy_between)
qed

lemma split_from_nl_free:
  "l \<in> set (split_from sep acc s) \<Longrightarrow> sep = [c] \<Longrightarrow> c \<notin> set acc \<Longrightarrow> c \<notin> set l"
  by (induction sep acc s rule: split_from.induct) (auto split: if_splits)

lemma line_nl_free: "l \<in> set (split s [nl]) \<Longrightarrow> nl \<notin> set l"
  using split_from_nl_free [of l "[nl]" "[]" s nl] by (simp add: split_def)

lemma tidy_stripped:
  assumes "tidy l" "nl \<notin> set l"
  shows "strip l = l"
proof (cases "l = []")
  case True
  then show ?thesis by (simp add: strip_Nil)
next
  case False
  have "\<not> isspace (hd l)"
  proof
    assume s: "isspace (hd l)"
    from False assms(2) have "hd l \<noteq> nl" by (cases l) auto
    with s assms(1) have "\<not> sublist [nl, hd l] (nl # l @ [nl])" by (simp add: tidy_def)
    moreover from False have "prefix [nl, hd l] (nl # l @ [nl])" by (cases l) simp_all
    ultimately show False by blast
  qed
  moreover have "\<not> isspace (last l)"
  proof
    assume s: "isspace (last l)"
    from False assms(2) have "last l \<noteq> nl" by (cases l rule: rev_cases) auto
    with s assms(1) have "\<not> sublist [last l, nl] (nl # l @ [nl])" by (simp add: tidy_def)
    moreover have "suffix [last l, nl] (nl # l @ [nl])"
    proof -
      from False have "nl # l @ [nl] = (nl # butlast l) @ [last l, nl]" by simp
      then show ?thesis by (simp only: suffixI)
    qed
    ultimately show False by blast
  qed
  ultimately show ?thesis using False by (intro strip_fixed)
qed

lemma tidy_lines:
  assumes "tidy d"
  shows "map strip (split d [nl]) = split d [nl]"
proof (rule map_idI)
  fix l assume l: "l \<in> set (split d [nl])"
  from assms _ l have "tidy l" by (rule tidy_piece) simp
  then show "strip l = l" using line_nl_free [OF l] by (rule tidy_stripped)
qed

lemma set_strip_subset: "set (strip s) \<subseteq> set s"
  using set_mono_sublist [OF sublist_strip] .

lemma tidy_linetrim: "tidy (linetrim t)"
  unfolding linetrim_def
proof (intro tidy_strip tidy_join ballI)
  show "[nl] = [nl] \<or> [nl] = [nl, nl]" by simp
next
  fix l assume "l \<in> set (map strip (split t [nl]))"
  then obtain l' where l': "l' \<in> set (split t [nl])" "l = strip l'" by auto
  from line_nl_free [OF l'(1)] set_strip_subset [of l'] have "nl \<notin> set l" using l'(2) by auto
  with l'(2) show "tidy l" by (intro tidy_line) (simp_all add: strip_idem)
qed

lemma linetrim_tidy: "tidy d \<Longrightarrow> linetrim d = strip d"
  by (simp add: linetrim_def tidy_lines join_split)

subsection \<open>The sections of a tidy text\<close>

lemma two_sublist_short: "length xs \<le> 1 \<Longrightarrow> \<not> sublist [a, b] xs"
  using sublist_length_le by fastforce

lemma split_from_blank_free:
  "p \<in> set (split_from sep acc s) \<Longrightarrow> sep = [nl, nl] \<Longrightarrow>
   \<not> sublist [nl, nl] (acc @ take 1 s) \<Longrightarrow> \<not> sublist [nl, nl] p"
proof (induction sep acc s rule: split_from.induct)
  case (1 sep acc)
  then show ?case by simp
next
  case (2 sep acc c cs)
  show ?case
  proof (cases "prefix sep (c # cs)")
    case True
    with 2(3,4) have "p = acc \<or> p \<in> set (split_from sep [] (drop (length sep) (c # cs)))"
      by auto
    then show ?thesis
    proof
      assume "p = acc"
      moreover have "sublist acc (acc @ take 1 (c # cs))" by simp
      ultimately show ?thesis using 2(5) sublist_trans by blast
    next
      assume a: "p \<in> set (split_from sep [] (drop (length sep) (c # cs)))"
      have "\<not> sublist [nl, nl] ([] @ take 1 (drop (length sep) (c # cs)))"
        by (rule two_sublist_short) simp
      with 2(1) [OF _ a 2(4)] True 2(4) show ?thesis by simp
    qed
  next
    case False
    with 2(3,4) have a: "p \<in> set (split_from sep (acc @ [c]) cs)" by auto
    have "\<not> sublist [nl, nl] ((acc @ [c]) @ take 1 cs)"
    proof (cases cs)
      case Nil
      with 2(5) show ?thesis by simp
    next
      case (Cons e cs')
      show ?thesis
      proof
        assume "sublist [nl, nl] ((acc @ [c]) @ take 1 cs)"
        with Cons have "sublist [nl, nl] (acc @ c # [e])" by simp
        from two_sublist_append [OF this] 2(5) have "sublist [nl, nl] [c, e]" by simp
        then have "c = nl \<and> e = nl" by (simp add: sublist_code)
        with False Cons 2(4) show False by simp
      qed
    qed
    with 2(2) [OF _ a 2(4)] False show ?thesis by simp
  qed
qed

lemma piece_blank_free: "p \<in> set (split d [nl, nl]) \<Longrightarrow> \<not> sublist [nl, nl] p"
  using split_from_blank_free [of p "[nl, nl]" "[]" d] two_sublist_short [of "take 1 d" nl nl]
  by (simp add: split_def)

lemma section_props:
  assumes "s \<in> set (sections_of d)"
  shows "s \<noteq> []" "strip s = s" "\<not> sublist [nl, nl] s"
proof -
  from assms obtain p where p: "p \<in> set (split d [nl, nl])" "s = strip p" "s \<noteq> []"
    by (auto simp: sections_of_def)
  from p show "s \<noteq> []" "strip s = s" by (simp_all add: strip_idem)
  show "\<not> sublist [nl, nl] s"
  proof
    assume "sublist [nl, nl] s"
    then have "sublist [nl, nl] p" unfolding p(2) using sublist_strip by (rule sublist_trans)
    with piece_blank_free [OF p(1)] show False by simp
  qed
qed

lemma section_tidy:
  assumes "tidy d" "s \<in> set (sections_of d)"
  shows "neat s"
proof -
  from assms(2) obtain p where p: "p \<in> set (split d [nl, nl])" "s = strip p"
    by (auto simp: sections_of_def)
  from assms(1) _ p(1) have "tidy p" by (rule tidy_piece) simp
  then have "tidy s" unfolding p(2) by (rule tidy_strip)
  with section_props [OF assms(2)] show ?thesis by (simp add: neat_def)
qed

lemma neat_no_blank_end:
  assumes "neat x"
  shows "\<not> sublist [nl, nl] (x @ [nl])"
proof
  assume "sublist [nl, nl] (x @ [nl])"
  then have "sublist ([nl] @ [nl]) (x @ [nl])" by simp
  then have "suffix [nl] x \<or> sublist ([nl] @ [nl]) x" by (simp only: snoc_sublist_snoc) auto
  then show False
  proof
    assume "suffix [nl] x"
    then have "x \<noteq> []" "last x = nl" by (auto simp: suffix_def)
    with strip_ends(2) [of x] assms isspace_nl show False by (simp add: neat_def)
  next
    assume "sublist ([nl] @ [nl]) x"
    with assms show False by (simp add: neat_def)
  qed
qed

lemma split_from_up_to_blank:
  "\<not> sublist [nl, nl] (x @ [nl]) \<Longrightarrow>
   split_from [nl, nl] acc (x @ nl # nl # rest) = (acc @ x) # split_from [nl, nl] [] rest"
proof (induction x arbitrary: acc)
  case Nil
  show ?case by simp
next
  case (Cons c x)
  have np: "\<not> prefix [nl, nl] (c # x @ nl # nl # rest)"
  proof
    assume "prefix [nl, nl] (c # x @ nl # nl # rest)"
    then have "prefix [nl, nl] ((c # x) @ [nl])" by (cases x) auto
    then have "sublist [nl, nl] ((c # x) @ [nl])" by (rule prefix_imp_sublist)
    with Cons.prems show False by simp
  qed
  from Cons.prems have "\<not> sublist [nl, nl] (x @ [nl])"
    by (simp add: sublist_Cons_right)
  from Cons.IH [OF this, of "acc @ [c]"] np show ?case by simp
qed

lemma split_from_no_blank:
  "\<not> sublist [nl, nl] x \<Longrightarrow> split_from [nl, nl] acc x = [acc @ x]"
proof (induction x arbitrary: acc)
  case Nil
  show ?case by simp
next
  case (Cons c x)
  from Cons.prems have "\<not> prefix [nl, nl] (c # x)" "\<not> sublist [nl, nl] x"
    by (simp_all add: sublist_Cons_right)
  with Cons.IH [of "acc @ [c]"] show ?case by simp
qed

lemma split_join_blank:
  "xs \<noteq> [] \<Longrightarrow> \<forall>x \<in> set xs. neat x \<Longrightarrow> split (join [nl, nl] xs) [nl, nl] = xs"
proof (induction xs)
  case Nil
  then show ?case by simp
next
  case (Cons x xs)
  from Cons.prems have nx: "\<not> sublist [nl, nl] (x @ [nl])" by (simp add: neat_no_blank_end)
  show ?case
  proof (cases xs)
    case Nil
    from Cons.prems have "\<not> sublist [nl, nl] x" by (simp add: neat_def)
    with Nil show ?thesis by (simp add: split_def split_from_no_blank)
  next
    case (Cons y ys)
    with Cons.IH Cons.prems have "split (join [nl, nl] xs) [nl, nl] = xs" by simp
    with Cons nx show ?thesis
      by (simp add: split_def split_from_up_to_blank)
  qed
qed

lemma hd_join: "xs \<noteq> [] \<Longrightarrow> hd xs \<noteq> [] \<Longrightarrow> hd (join sep xs) = hd (hd xs)"
  by (induction sep xs rule: join.induct) auto

lemma join_last_not_Nil: "xs \<noteq> [] \<Longrightarrow> last xs \<noteq> [] \<Longrightarrow> join sep xs \<noteq> []"
  by (induction sep xs rule: join.induct) auto

lemma last_join: "xs \<noteq> [] \<Longrightarrow> last xs \<noteq> [] \<Longrightarrow> last (join sep xs) = last (last xs)"
proof (induction sep xs rule: join.induct)
  case (3 sep x y ys)
  then have "join sep (y # ys) \<noteq> []" by (intro join_last_not_Nil) simp_all
  with 3 show ?case by simp
qed simp_all

lemma join_eq_Nil: "xs \<noteq> [] \<Longrightarrow> hd xs \<noteq> [] \<Longrightarrow> join sep xs \<noteq> []"
  by (induction sep xs rule: join.induct) auto

lemma neat_join:
  assumes "\<forall>x \<in> set xs. neat x"
  shows "linetrim (join [nl, nl] xs) = join [nl, nl] xs"
    and "sections_of (join [nl, nl] xs) = xs"
proof -
  let ?J = "join [nl, nl] xs"
  from assms have "tidy ?J" by (intro tidy_join) (simp_all add: neat_def)
  then have lt: "linetrim ?J = strip ?J" by (rule linetrim_tidy)
  show "linetrim ?J = ?J"
  proof (cases "xs = []")
    case True
    then show ?thesis by (simp add: linetrim_def split_def strip_Nil)
  next
    case False
    with assms have h: "neat (hd xs)" and l: "neat (last xs)" by simp_all
    from h have "hd xs \<noteq> []" "\<not> isspace (hd (hd xs))"
      using strip_ends(1) [of "hd xs"] by (simp_all add: neat_def)
    moreover from l have "last xs \<noteq> []" "\<not> isspace (last (last xs))"
      using strip_ends(2) [of "last xs"] by (simp_all add: neat_def)
    ultimately have "strip ?J = ?J"
      using False by (intro strip_fixed) (simp_all add: hd_join last_join join_eq_Nil)
    with lt show ?thesis by simp
  qed
  show "sections_of ?J = xs"
  proof (cases "xs = []")
    case True
    then show ?thesis by (simp add: sections_of_def split_def strip_Nil)
  next
    case False
    from assms have "map strip xs = xs" by (intro map_idI) (simp add: neat_def)
    moreover from assms have "filter (\<lambda>s. s \<noteq> []) xs = xs" by (simp add: neat_def)
    ultimately show ?thesis
      using split_join_blank [OF False assms] by (simp add: sections_of_def)
  qed
qed

lemma clean_content_tidy: "tidy (clean_content doc)"
  by (simp add: clean_content_eq tidy_linetrim)

lemma retained_subset: "set (retained doc) \<subseteq> set (sections_of doc)"
  by (auto simp: retained_eq set_fresh)

lemma second_application:
  "retained (clean_content doc) = fresh {} (sections_of (clean_content doc))"
  "clean_content (clean_content doc) = join [nl, nl] (retained (clean_content doc))"
  "sections_of (clean_content (clean_content doc)) = retained (clean_content doc)"
proof -
  let ?out = "clean_content doc"
  have "filter (\<lambda>s. \<not> noise s) (sections_of ?out) = sections_of ?out"
    using sections_of_clean_not_noise by (simp add: filter_id_conv)
  then show r: "retained ?out = fresh {} (sections_of ?out)" by (simp add: retained_eq)
  have n: "\<forall>x \<in> set (retained ?out). neat x"
    using retained_subset [of ?out] section_tidy [OF clean_content_tidy] by blast
  from neat_join(1) [OF n] show "clean_content ?out = join [nl, nl] (retained ?out)"
    by (simp add: clean_content_eq [of ?out])
  then show "sections_of (clean_content ?out) = retained ?out"
    using neat_join(2) [OF n] by simp
qed

section \<open>Aggregation\<close>

text \<open>
  Claim C3, as the code has it. The sections \<open>clean_content\<close> retains are the trimmed,
  non-empty sections of the joined blocks that neither classifier calls noise, each at
  its first occurrence: they are pairwise distinct and in their original order. The
  output is their join by a blank line with every line trimmed, and no section of the
  output is noise. When no line of a retained section has leading or trailing
  whitespace, the sections of the output are the retained ones. For the blocks
  \<open>A\<close>, \<open>A\<close>, \<open>B\<close> the output is \<open>A\<close>, a blank line, \<open>B\<close>.
\<close>

theorem aggregate_retains_clean_distinct_sections:
  "distinct (retained (join [nl, nl] blocks)) \<and>
   set (retained (join [nl, nl] blocks)) =
     {s \<in> set (sections_of (join [nl, nl] blocks)). \<not> noise s} \<and>
   subseq (retained (join [nl, nl] blocks)) (sections_of (join [nl, nl] blocks)) \<and>
   aggregate blocks = linetrim (join [nl, nl] (retained (join [nl, nl] blocks))) \<and>
   (\<forall>s \<in> set (sections_of (aggregate blocks)). \<not> noise s) \<and>
   ((\<forall>s \<in> set (retained (join [nl, nl] blocks)). \<forall>l \<in> set (split s [nl]). strip l = l) \<longrightarrow>
      sections_of (aggregate blocks) = retained (join [nl, nl] blocks)) \<and>
   aggregate [''A'', ''A'', ''B''] = ''A'' @ [nl, nl] @ ''B''"
proof (intro conjI impI)
  let ?doc = "join [nl, nl] blocks"
  show "distinct (retained ?doc)" by (simp add: retained_eq distinct_fresh)
  show "set (retained ?doc) = {s \<in> set (sections_of ?doc). \<not> noise s}"
    by (auto simp: retained_eq set_fresh)
  have "subseq (retained ?doc) (filter (\<lambda>s. \<not> noise s) (sections_of ?doc))"
    by (simp add: retained_eq subseq_fresh)
  then show "subseq (retained ?doc) (sections_of ?doc)"
    using subseq_order.order_trans subseq_filter_left by blast
  show "aggregate blocks = linetrim (join [nl, nl] (retained ?doc))"
    by (simp add: aggregate_def clean_content_eq)
  show "\<forall>s \<in> set (sections_of (aggregate blocks)). \<not> noise s"
    by (simp add: aggregate_def sections_of_clean_not_noise)
  show "aggregate [''A'', ''A'', ''B''] = ''A'' @ [nl, nl] @ ''B''"
    by code_simp
next
  let ?doc = "join [nl, nl] blocks"
  assume a: "\<forall>s \<in> set (retained ?doc). \<forall>l \<in> set (split s [nl]). strip l = l"
  have "neat x" if x: "x \<in> set (retained ?doc)" for x
  proof -
    from a x have "map strip (split x [nl]) = split x [nl]" by (intro map_idI) blast
    moreover have "tidy (join [nl] (map strip (split x [nl])))"
    proof (intro tidy_join ballI)
      fix l assume "l \<in> set (map strip (split x [nl]))"
      then obtain l' where l': "l' \<in> set (split x [nl])" "l = strip l'" by auto
      from line_nl_free [OF l'(1)] set_strip_subset [of l'] have "nl \<notin> set l"
        using l'(2) by auto
      with l'(2) show "tidy l" by (intro tidy_line) (simp_all add: strip_idem)
    qed simp
    ultimately have "tidy x" by (simp add: join_split)
    moreover from x retained_subset have "x \<in> set (sections_of ?doc)" by blast
    ultimately show ?thesis using section_props [of x ?doc] by (simp add: neat_def)
  qed
  then have n: "\<forall>x \<in> set (retained ?doc). neat x" by blast
  show "sections_of (aggregate blocks) = retained ?doc"
    using neat_join [OF n] by (simp add: aggregate_def clean_content_eq)
qed

theorem aggregate_retains_clean_distinct_sections_witness:
  "retained (join [nl, nl] demo_blocks) =
     [''Intro'', ''Review'' @ [nl] @ ''second line''] \<and>
   aggregate demo_blocks = ''Intro'' @ [nl, nl] @ ''Review'' @ [nl] @ ''second line'' \<and>
   sections_of (aggregate demo_blocks) = [''Intro'', ''Review'' @ [nl] @ ''second line''] \<and>
   distinct (retained (join [nl, nl] demo_blocks))"
proof -
  note t = aggregate_retains_clean_distinct_sections [of demo_blocks]
  have r: "retained (join [nl, nl] demo_blocks) = [''Intro'', ''Review'' @ [nl] @ ''second line'']"
    by code_simp
  have h: "\<forall>s \<in> set (retained (join [nl, nl] demo_blocks)).
             \<forall>l \<in> set (split s [nl]). strip l = l"
    unfolding r by code_simp
  have l: "linetrim (join [nl, nl] [''Intro'', ''Review'' @ [nl] @ ''second line'']) =
           ''Intro'' @ [nl, nl] @ ''Review'' @ [nl] @ ''second line''"
    by code_simp
  from t have d: "distinct (retained (join [nl, nl] demo_blocks))"
    by (rule conjunct1)
  from t have "aggregate demo_blocks =
      linetrim (join [nl, nl] (retained (join [nl, nl] demo_blocks)))"
    by (elim conjE)
  then have a: "aggregate demo_blocks =
      ''Intro'' @ [nl, nl] @ ''Review'' @ [nl] @ ''second line''"
    unfolding r l .
  from t have "(\<forall>s \<in> set (retained (join [nl, nl] demo_blocks)).
                 \<forall>l \<in> set (split s [nl]). strip l = l) \<longrightarrow>
      sections_of (aggregate demo_blocks) = retained (join [nl, nl] demo_blocks)"
    by (elim conjE)
  with h have "sections_of (aggregate demo_blocks) = retained (join [nl, nl] demo_blocks)"
    by (rule rev_mp)
  then have s: "sections_of (aggregate demo_blocks) =
      [''Intro'', ''Review'' @ [nl] @ ''second line'']"
    unfolding r .
  from r a s d show ?thesis by (intro conjI)
qed

text \<open>
  Two blocks that differ only by a line of whitespace inside the second: the sections
  are distinct when they are compared, and equal once their lines are trimmed.
\<close>

theorem output_sections_distinct_counterexample:
  "\<not> distinct (sections_of (aggregate [''a'', ''a'' @ [nl] @ '' '' @ [nl] @ ''b'']))"
  by code_simp

lemma neat_retained:
  assumes "\<forall>s \<in> set (retained doc). \<forall>l \<in> set (split s [nl]). strip l = l"
  shows "\<forall>x \<in> set (retained doc). neat x"
proof
  fix x assume x: "x \<in> set (retained doc)"
  with assms have "map strip (split x [nl]) = split x [nl]" by (intro map_idI) blast
  moreover have "tidy (join [nl] (map strip (split x [nl])))"
  proof (intro tidy_join ballI)
    fix l assume "l \<in> set (map strip (split x [nl]))"
    then obtain l' where l': "l' \<in> set (split x [nl])" "l = strip l'" by auto
    from line_nl_free [OF l'(1)] set_strip_subset [of l'] have "nl \<notin> set l"
      using l'(2) by auto
    with l'(2) show "tidy l" by (intro tidy_line) (simp_all add: strip_idem)
  qed simp
  ultimately have "tidy x" by (simp add: join_split)
  moreover from x retained_subset have "x \<in> set (sections_of doc)" by blast
  ultimately show "neat x" using section_props [of x doc] by (simp add: neat_def)
qed

lemma clean_content_neat:
  assumes "\<forall>x \<in> set xs. neat x" "distinct xs" "\<forall>x \<in> set xs. \<not> noise x"
  shows "retained (join [nl, nl] xs) = xs" and "clean_content (join [nl, nl] xs) = join [nl, nl] xs"
proof -
  have "sections_of (join [nl, nl] xs) = xs" using neat_join(2) [OF assms(1)] .
  moreover have "filter (\<lambda>s. \<not> noise s) xs = xs" using assms(3) by (simp add: filter_id_conv)
  ultimately show r: "retained (join [nl, nl] xs) = xs"
    using assms(2) by (simp add: retained_eq [of "join [nl, nl] xs"] fresh_distinct)
  show "clean_content (join [nl, nl] xs) = join [nl, nl] xs"
    using neat_join(1) [OF assms(1)] by (simp add: clean_content_eq [of "join [nl, nl] xs"] r)
qed

lemma padded_once:
  "aggregate padded_blocks = ''a'' @ [nl, nl] @ ''a'' @ [nl, nl] @ ''b''"
  by code_simp

lemma padded_twice: "aggregate [aggregate padded_blocks] = ''a'' @ [nl, nl] @ ''b''"
  by code_simp

lemma padded_sections: "sections_of (aggregate padded_blocks) = [''a'', ''a'', ''b'']"
  by code_simp

text \<open>
  Claim C8, as the code has it. Applying \<open>clean_content\<close> to its own output gives a text
  with the same set of sections as that output: the second application retains every
  section of its input and drops only repetitions, so it can change the text; a third
  application changes nothing. When no line of a section retained by the first
  application has leading or trailing whitespace, the second application already
  changes nothing and retains the same sections as the first.
\<close>

theorem aggregate_idempotent_from_second_application:
  "set (sections_of (aggregate [aggregate blocks])) = set (sections_of (aggregate blocks)) \<and>
   set (retained (aggregate blocks)) = set (sections_of (aggregate blocks)) \<and>
   aggregate [aggregate [aggregate blocks]] = aggregate [aggregate blocks] \<and>
   ((\<forall>s \<in> set (retained (join [nl, nl] blocks)). \<forall>l \<in> set (split s [nl]). strip l = l) \<longrightarrow>
      aggregate [aggregate blocks] = aggregate blocks \<and>
      retained (aggregate blocks) = retained (join [nl, nl] blocks))"
proof (intro conjI impI)
  let ?out = "clean_content (join [nl, nl] blocks)"
  let ?R = "retained ?out"
  note sa = second_application [of "join [nl, nl] blocks"]
  show "set (retained (aggregate blocks)) = set (sections_of (aggregate blocks))"
    by (simp add: aggregate_def sa(1) set_fresh)
  then show "set (sections_of (aggregate [aggregate blocks])) =
      set (sections_of (aggregate blocks))"
    using sa(3) by (simp add: aggregate_def)
  have n: "\<forall>x \<in> set ?R. neat x"
    using retained_subset [of ?out] section_tidy [OF clean_content_tidy] by blast
  have d: "distinct ?R" by (simp add: retained_eq [of ?out] distinct_fresh)
  have c: "\<forall>x \<in> set ?R. \<not> noise x" using retained_props(2) [of _ ?out] by blast
  have "clean_content (join [nl, nl] ?R) = join [nl, nl] ?R"
    using n d c by (rule clean_content_neat(2))
  then show "aggregate [aggregate [aggregate blocks]] = aggregate [aggregate blocks]"
    using sa(2) by (simp add: aggregate_def)
next
  let ?doc = "join [nl, nl] blocks"
  assume "\<forall>s \<in> set (retained ?doc). \<forall>l \<in> set (split s [nl]). strip l = l"
  then have n: "\<forall>x \<in> set (retained ?doc). neat x" by (rule neat_retained)
  have d: "distinct (retained ?doc)" by (simp add: retained_eq distinct_fresh)
  have c: "\<forall>x \<in> set (retained ?doc). \<not> noise x" using retained_props(2) by blast
  have out: "aggregate blocks = join [nl, nl] (retained ?doc)"
    using neat_join(1) [OF n] by (simp add: aggregate_def clean_content_eq)
  show "aggregate [aggregate blocks] = aggregate blocks"
    unfolding out using clean_content_neat(2) [OF n d c] by (simp add: aggregate_def)
  show "retained (aggregate blocks) = retained (join [nl, nl] blocks)"
    unfolding out using clean_content_neat(1) [OF n d c] .
qed

theorem aggregate_idempotent_from_second_application_witness:
  "set (sections_of (aggregate [aggregate padded_blocks])) = set [''a'', ''a'', ''b''] \<and>
   set (retained (aggregate padded_blocks)) = set [''a'', ''a'', ''b''] \<and>
   aggregate [aggregate [aggregate padded_blocks]] = ''a'' @ [nl, nl] @ ''b'' \<and>
   aggregate [aggregate demo_blocks] = aggregate demo_blocks \<and>
   retained (aggregate demo_blocks) = [''Intro'', ''Review'' @ [nl] @ ''second line'']"
proof -
  note x = aggregate_idempotent_from_second_application [of padded_blocks]
  note y = aggregate_idempotent_from_second_application [of demo_blocks]
  have r: "retained (join [nl, nl] demo_blocks) = [''Intro'', ''Review'' @ [nl] @ ''second line'']"
    by code_simp
  have h: "\<forall>s \<in> set (retained (join [nl, nl] demo_blocks)).
             \<forall>l \<in> set (split s [nl]). strip l = l"
    unfolding r by code_simp
  from x have 1: "set (sections_of (aggregate [aggregate padded_blocks])) =
      set [''a'', ''a'', ''b'']"
    unfolding padded_sections by (rule conjunct1)
  from x have 2: "set (retained (aggregate padded_blocks)) = set [''a'', ''a'', ''b'']"
    unfolding padded_sections by (elim conjE)
  from x have 3: "aggregate [aggregate [aggregate padded_blocks]] = ''a'' @ [nl, nl] @ ''b''"
    unfolding padded_twice by (elim conjE)
  from y have "(\<forall>s \<in> set (retained (join [nl, nl] demo_blocks)).
                  \<forall>l \<in> set (split s [nl]). strip l = l) \<longrightarrow>
      aggregate [aggregate demo_blocks] = aggregate demo_blocks \<and>
      retained (aggregate demo_blocks) = retained (join [nl, nl] demo_blocks)"
    by (elim conjE)
  with h have "aggregate [aggregate demo_blocks] = aggregate demo_blocks \<and>
      retained (aggregate demo_blocks) = retained (join [nl, nl] demo_blocks)"
    by (rule rev_mp)
  then have 4: "aggregate [aggregate demo_blocks] = aggregate demo_blocks"
    and 5: "retained (aggregate demo_blocks) = [''Intro'', ''Review'' @ [nl] @ ''second line'']"
    unfolding r by (rule conjunct1, rule conjunct2)
  from 1 2 3 4 5 show ?thesis by (intro conjI)
qed

text \<open>
  The second block holds a line of whitespace: the first output repeats the section
  \<open>a\<close>, the second application drops the repetition, and the two applications retain
  different sections.
\<close>

theorem aggregate_not_idempotent_counterexample:
  "aggregate [aggregate padded_blocks] \<noteq> aggregate padded_blocks \<and>
   set (retained (aggregate padded_blocks)) \<noteq> set (retained (join [nl, nl] padded_blocks))"
  by code_simp

text \<open>
  Claim C9. A string that contains \<open>pdf_url\<close>, \<open>published\<close> or \<open>authors\<close> anywhere is
  tool noise for \<open>is_function_call_message\<close>; such a string is never among the sections
  \<open>clean_content\<close> retains nor among the sections of its output, and the word does not
  occur in the output at all.
\<close>

theorem bare_words_are_noise:
  assumes "w = ''pdf_url'' \<or> w = ''published'' \<or> w = ''authors''" and "sublist w s"
  shows "is_function_call_message (PyStr s) \<and> s \<notin> set (retained doc) \<and>
         s \<notin> set (sections_of (clean_content doc)) \<and> \<not> sublist w (clean_content doc)"
proof -
  from assms(1) have m: "w \<in> set function_indicators" by (auto simp: function_indicators_def)
  then have w: "w \<in> set function_indicators \<union> set json_indicators" by simp
  with markers_solid have "w \<noteq> []" by (auto simp: solid_def)
  with assms(2) have "s \<noteq> []" by auto
  with m assms(2) have 1: "is_function_call_message (PyStr s)"
    by (auto simp: is_function_call_message_def list_ex_iff)
  then have n: "noise s" by (simp add: noise_def)
  with retained_props(2) have 2: "s \<notin> set (retained doc)" by blast
  from n sections_of_clean_not_noise have 3: "s \<notin> set (sections_of (clean_content doc))" by blast
  have 4: "\<not> sublist w (clean_content doc)"
    using w clean_content_not_noise [of doc] by (auto simp: noise_iff)
  from 1 2 3 4 show ?thesis by simp
qed

theorem bare_words_are_noise_witness:
  "is_function_call_message (PyStr ''as the authors show'') \<and>
   clean_content (''Intro'' @ [nl, nl] @ ''as the authors show'') = ''Intro'' \<and>
   ''as the authors show'' \<notin> set (retained (''Intro'' @ [nl, nl] @ ''as the authors show'')) \<and>
   \<not> sublist ''authors'' (clean_content (''Intro'' @ [nl, nl] @ ''as the authors show''))"
proof -
  have s: "sublist ''authors'' ''as the authors show''" by code_simp
  have c: "clean_content (''Intro'' @ [nl, nl] @ ''as the authors show'') = ''Intro''" by code_simp
  from bare_words_are_noise [of "''authors''" "''as the authors show''"
      "''Intro'' @ [nl, nl] @ ''as the authors show''"] s c
  show ?thesis by simp
qed

end
